theory Spec2Isabelle
  imports Complex_Main
begin

section \<open>Numbers\<close>

text \<open>
  The program computes with C++ \<^verbatim>\<open>double\<close>. The fields of the data model hold finite
  values, read here as reals, and \<open>+\<close>, \<open>-\<close>, \<open>*\<close> on them are taken exact (no rounding, no
  overflow). A quotient is the one place where a finite computation leaves the finite
  values, so the result of \<^verbatim>\<open>/\<close> is a \<open>double\<close> in the sense of IEEE 754: a finite value,
  an infinity, or not-a-number. A zero divisor is read as \<^verbatim>\<open>+0.0\<close>.
\<close>

datatype double = Fin real | PInf | NInf | NaN

definition ddiv :: "real \<Rightarrow> real \<Rightarrow> double" where
  "ddiv a b =
     (if b \<noteq> 0 then Fin (a / b)
      else if 0 < a then PInf
      else if a < 0 then NInf
      else NaN)"

text \<open>The comparison \<^verbatim>\<open><\<close> of two doubles: false as soon as one side is not-a-number.\<close>

fun dless :: "double \<Rightarrow> double \<Rightarrow> bool" where
  "dless NaN _ = False"
| "dless _ NaN = False"
| "dless (Fin a) (Fin b) = (a < b)"
| "dless (Fin _) PInf = True"
| "dless (Fin _) NInf = False"
| "dless PInf _ = False"
| "dless NInf NInf = False"
| "dless NInf _ = True"

text \<open>\<^verbatim>\<open>DBL_MAX\<close> of \<^verbatim>\<open><cfloat>\<close>: the largest finite binary64 value.\<close>

definition DBL_MAX :: real where
  "DBL_MAX = 2 ^ 1024 - 2 ^ 971"

section \<open>Data model\<close>

text \<open>
  Modelled from the spec: the declarations of \<^verbatim>\<open>Variable\<close>, \<^verbatim>\<open>Constraint\<close>, \<^verbatim>\<open>Block\<close> and
  \<^verbatim>\<open>FeasibleProjectionAlgorithm\<close> (\<^verbatim>\<open>feasible_projection_algorithm.h\<close>) are missing. The
  fields are those the functions of \<^verbatim>\<open>feasible_projection_algorithm.cpp\<close> read and write,
  with the meaning section 3 of the specification gives them. A field \<^verbatim>\<open>f\<close> of a struct is
  named with the struct's initial: \<^verbatim>\<open>v->d\<close> is \<open>v_d\<close>, \<^verbatim>\<open>c->lm\<close> is \<open>c_lm\<close>, \<^verbatim>\<open>b->XI\<close> is \<open>b_XI\<close>.

  Objects live in three stores, one per struct, and a pointer is an index into its store;
  a pointer that may be \<^verbatim>\<open>NULL\<close> is a \<open>nat option\<close>.
\<close>

record Variable =
  v_d :: real         \<comment> \<open>desired position\<close>
  v_x :: real         \<comment> \<open>current position\<close>
  v_b :: real         \<comment> \<open>offset from the reference of the owning block\<close>
  v_block :: nat      \<comment> \<open>the owning block\<close>
  v_out :: "nat list" \<comment> \<open>constraints with this variable on the left\<close>
  v_in :: "nat list"  \<comment> \<open>constraints with this variable on the right\<close>

record Constraint =
  c_l :: nat
  c_r :: nat
  c_g :: real
  c_active :: bool
  c_lm :: real

record Block =
  b_V :: "nat list"
  b_C :: "nat list"
  b_X :: real
  b_XI :: real

text \<open>
  The solver object and the heap it points into. \<open>fpa_inactive\<close> is the set \<^verbatim>\<open>inactive\<close> (it has
  \<^verbatim>\<open>erase\<close> by value), kept as the list of its elements in iteration order; \<open>next_blk\<close> is the
  address the next \<^verbatim>\<open>new Block\<close> returns.
\<close>

record state =
  varH :: "nat \<Rightarrow> Variable"
  conH :: "nat \<Rightarrow> Constraint"
  blkH :: "nat \<Rightarrow> Block"
  next_blk :: nat
  fpa_vs :: "nat list"
  fpa_cs :: "nat list"
  fpa_inactive :: "nat list"
  fpa_blocks :: "nat list"

section \<open>Construction\<close>

text \<open>
  \<^verbatim>\<open>Constraint::Constraint(l, r, g)\<close> at address \<open>c\<close>: inactive, multiplier 0, registered at the
  end of \<^verbatim>\<open>l->out\<close> and of \<^verbatim>\<open>r->in\<close>.
\<close>

definition Constraint_ctor :: "state \<Rightarrow> nat \<Rightarrow> nat \<Rightarrow> nat \<Rightarrow> real \<Rightarrow> state" where
  "Constraint_ctor s c l r g =
     (let s1 = s\<lparr>conH := (conH s)(c := \<lparr>c_l = l, c_r = r, c_g = g, c_active = False, c_lm = 0\<rparr>)\<rparr>;
          s2 = s1\<lparr>varH := (varH s1)(l := (varH s1 l)\<lparr>v_out := v_out (varH s1 l) @ [c]\<rparr>)\<rparr>
      in s2\<lparr>varH := (varH s2)(r := (varH s2 r)\<lparr>v_in := v_in (varH s2 r) @ [c]\<rparr>)\<rparr>)"

text \<open>
  \<^verbatim>\<open>new Block(v)\<close>: \<^verbatim>\<open>X(v->d)\<close>, \<^verbatim>\<open>XI(v->x)\<close>, then \<^verbatim>\<open>V.push_back(v); v->b=0; v->block=this\<close>.
  Returns the address of the block.
\<close>

definition Block_ctor :: "state \<Rightarrow> nat \<Rightarrow> nat \<times> state" where
  "Block_ctor s v =
     (let this = next_blk s;
          s1 = s\<lparr>blkH := (blkH s)(this :=
                  \<lparr>b_V = [v], b_C = [], b_X = v_d (varH s v), b_XI = v_x (varH s v)\<rparr>),
                next_blk := Suc this\<rparr>
      in (this, s1\<lparr>varH := (varH s1)(v := (varH s1 v)\<lparr>v_b := 0, v_block := this\<rparr>)\<rparr>))"

text \<open>
  The constructor of the solver: \<^verbatim>\<open>vs(vs), cs(cs), inactive(cs.begin(),cs.end())\<close>; \<^verbatim>\<open>blocks\<close>
  starts empty. The set keeps one copy of each pointer, in the order of the pointers.
\<close>

definition FeasibleProjectionAlgorithm :: "state \<Rightarrow> nat list \<Rightarrow> nat list \<Rightarrow> state" where
  "FeasibleProjectionAlgorithm s vs cs =
     s\<lparr>fpa_vs := vs, fpa_cs := cs, fpa_inactive := sort (remdups cs), fpa_blocks := []\<rparr>"

text \<open>\<^verbatim>\<open>init_blocks\<close>: for each \<open>v\<close> of \<^verbatim>\<open>vs\<close> in order, \<^verbatim>\<open>blocks.push_back(new Block(v))\<close>.\<close>

fun init_blocks_loop :: "state \<Rightarrow> nat list \<Rightarrow> state" where
  "init_blocks_loop s [] = s"
| "init_blocks_loop s (v # vs) =
     (case Block_ctor s v of
        (this, s1) \<Rightarrow> init_blocks_loop (s1\<lparr>fpa_blocks := fpa_blocks s1 @ [this]\<rparr>) vs)"

definition init_blocks :: "state \<Rightarrow> state" where
  "init_blocks s = init_blocks_loop s (fpa_vs s)"

section \<open>Block\<close>



section \<open>The safe step\<close>

text \<open>
  The body of \<^verbatim>\<open>MaxSafeAlpha::operator()\<close> up to the comparison: the step fraction \<^verbatim>\<open>alpha\<close> of
  one constraint.
\<close>

definition MaxSafeAlpha_alpha :: "state \<Rightarrow> nat \<Rightarrow> double" where
  "MaxSafeAlpha_alpha s c =
     (let Xl = b_X (blkH s (v_block (varH s (c_l (conH s c)))));
          Xr = b_X (blkH s (v_block (varH s (c_r (conH s c)))));
          bl = v_b (varH s (c_l (conH s c)));
          br = v_b (varH s (c_r (conH s c)))
      in if Xl + bl + c_g (conH s c) \<le> Xr + br then Fin 1
         else
           (let XIl = b_XI (blkH s (v_block (varH s (c_l (conH s c)))));
                XIr = b_XI (blkH s (v_block (varH s (c_r (conH s c)))));
                Al = XIl + bl;
                Ar = XIr + br;
                Bl = Xl - XIl;
                Br = Xr - XIr
            in ddiv (c_g (conH s c) + Al - Ar) (Br - Bl)))"

text \<open>
  The functor holds references to the caller's \<^verbatim>\<open>c\<close> and \<^verbatim>\<open>alpha\<close>; its constructor sets them
  to \<^verbatim>\<open>NULL\<close> and \<^verbatim>\<open>DBL_MAX\<close>, and each call may replace them.
\<close>

definition MaxSafeAlpha_ctor :: "nat option \<times> double" where
  "MaxSafeAlpha_ctor = (None, Fin DBL_MAX)"

definition MaxSafeAlpha_call :: "state \<Rightarrow> nat option \<times> double \<Rightarrow> nat \<Rightarrow> nat option \<times> double" where
  "MaxSafeAlpha_call s acc c =
     (let alpha = MaxSafeAlpha_alpha s c
      in if dless alpha (snd acc) then (Some c, alpha) else acc)"

text \<open>\<^verbatim>\<open>for_each(inactive.begin(),inactive.end(),MaxSafeAlpha(c,alpha))\<close>.\<close>

definition safe_step :: "state \<Rightarrow> nat option \<times> double" where
  "safe_step s = foldl (MaxSafeAlpha_call s) MaxSafeAlpha_ctor (fpa_inactive s)"

section \<open>Merge and split\<close>

definition make_active :: "state \<Rightarrow> nat option \<Rightarrow> double \<Rightarrow> state" where
  "make_active s c alpha = s"

definition make_inactive :: "state \<Rightarrow> nat option \<Rightarrow> state" where
  "make_inactive s c = s"

definition split_blocks :: "state \<Rightarrow> state" where
  "split_blocks s = s"

section \<open>Lagrange multipliers\<close>

text \<open>The assignment \<^verbatim>\<open>c->lm = y\<close>.\<close>

definition set_lm :: "state \<Rightarrow> nat \<Rightarrow> real \<Rightarrow> state" where
  "set_lm s c y = s\<lparr>conH := (conH s)(c := (conH s c)\<lparr>c_lm := y\<rparr>)\<rparr>"

text \<open>
  \<^verbatim>\<open>Block::compute_dfdv(v, last)\<close>. The recursion follows the active constraints and need not
  end when they form a cycle, so the model carries the number \<open>n\<close> of nested recursive calls
  it may still make below the present one, and returns \<open>None\<close> when a call would exceed it.
  \<open>dfdv_out\<close> and \<open>dfdv_in\<close> are the two \<^verbatim>\<open>for\<close> loops, over the rest of \<^verbatim>\<open>v->out\<close> and of
  \<^verbatim>\<open>v->in\<close>, with the running value of the local \<^verbatim>\<open>dfdv\<close>.
\<close>

fun compute_dfdv :: "nat \<Rightarrow> state \<Rightarrow> nat \<Rightarrow> nat option \<Rightarrow> (real \<times> state) option"
  and dfdv_out :: "nat \<Rightarrow> state \<Rightarrow> nat option \<Rightarrow> nat list \<Rightarrow> real \<Rightarrow> (real \<times> state) option"
  and dfdv_in :: "nat \<Rightarrow> state \<Rightarrow> nat option \<Rightarrow> nat list \<Rightarrow> real \<Rightarrow> (real \<times> state) option"
where
  "compute_dfdv n s v last_c =
     (case dfdv_out n s last_c (v_out (varH s v)) (2 * (v_x (varH s v) - v_d (varH s v))) of
        None \<Rightarrow> None
      | Some (dfdv, s1) \<Rightarrow> dfdv_in n s1 last_c (v_in (varH s1 v)) dfdv)"
| "dfdv_out n s last_c [] dfdv = Some (dfdv, s)"
| "dfdv_out n s last_c (c # cs) dfdv =
     (if Some c \<noteq> last_c \<and> c_active (conH s c) then
        (case n of
           0 \<Rightarrow> None
         | Suc m \<Rightarrow>
             (case compute_dfdv m s (c_r (conH s c)) (Some c) of
                None \<Rightarrow> None
              | Some (y, s1) \<Rightarrow>
                  (let s2 = set_lm s1 c y
                   in dfdv_out n s2 last_c cs (dfdv + c_lm (conH s2 c)))))
      else dfdv_out n s last_c cs dfdv)"
| "dfdv_in n s last_c [] dfdv = Some (dfdv, s)"
| "dfdv_in n s last_c (c # cs) dfdv =
     (if Some c \<noteq> last_c \<and> c_active (conH s c) then
        (case n of
           0 \<Rightarrow> None
         | Suc m \<Rightarrow>
             (case compute_dfdv m s (c_l (conH s c)) (Some c) of
                None \<Rightarrow> None
              | Some (y, s1) \<Rightarrow>
                  (let s2 = set_lm s1 c (- y)
                   in dfdv_in n s2 last_c cs (dfdv - c_lm (conH s2 c)))))
      else dfdv_in n s last_c cs dfdv)"

text \<open>\<^verbatim>\<open>reset_lm\<close>: \<^verbatim>\<open>c->lm = 0\<close>.\<close>

definition reset_lm :: "state \<Rightarrow> nat \<Rightarrow> state" where
  "reset_lm s c = set_lm s c 0"

text \<open>
  \<^verbatim>\<open>Block::computeLagrangians()\<close>: \<^verbatim>\<open>for_each(C.begin(),C.end(),reset_lm())\<close>, then
  \<^verbatim>\<open>compute_dfdv(V[0],NULL)\<close>, whose value is dropped. \<^verbatim>\<open>V[0]\<close> of an empty vector is undefined
  behaviour, a fault of its own here.
\<close>

datatype fault = Empty_block | Too_deep

definition computeLagrangians :: "nat \<Rightarrow> state \<Rightarrow> nat \<Rightarrow> fault + state" where
  "computeLagrangians n s this =
     (let s1 = foldl reset_lm s (b_C (blkH s this))
      in case b_V (blkH s1 this) of
           [] \<Rightarrow> Inl Empty_block
         | v0 # _ \<Rightarrow>
             (case compute_dfdv n s1 v0 None of
                None \<Rightarrow> Inl Too_deep
              | Some (_, s2) \<Rightarrow> Inr s2))"

section \<open>The solve\<close>

text \<open>\<^verbatim>\<open>inactive.erase(c)\<close>: erasing by value; a pointer that is not in the set erases nothing.\<close>

definition erase :: "nat option \<Rightarrow> nat list \<Rightarrow> nat list" where
  "erase c xs = (case c of None \<Rightarrow> xs | Some k \<Rightarrow> removeAll k xs)"

text \<open>The body of the \<^verbatim>\<open>while\<close> loop of \<^verbatim>\<open>make_optimal\<close> before the next search.\<close>

definition make_optimal_body :: "state \<Rightarrow> nat option \<times> double \<Rightarrow> state" where
  "make_optimal_body s ca =
     (let s1 = make_active s (fst ca) (snd ca)
      in s1\<lparr>fpa_inactive := erase (fst ca) (fpa_inactive s1)\<rparr>)"

lemma DBL_MAX_ge_1: "1 \<le> DBL_MAX"
  by (simp add: DBL_MAX_def)

lemma foldl_MaxSafeAlpha_cases:
  "foldl (MaxSafeAlpha_call s) acc xs = acc \<or>
   (\<exists>k \<in> set xs. foldl (MaxSafeAlpha_call s) acc xs = (Some k, MaxSafeAlpha_alpha s k))"
proof (induction xs arbitrary: acc)
  case Nil
  show ?case by simp
next
  case (Cons x xs)
  show ?case
    using Cons.IH [of "MaxSafeAlpha_call s acc x"]
    by (auto simp: MaxSafeAlpha_call_def Let_def)
qed

lemma safe_step_below_1:
  assumes "dless (snd (safe_step s)) (Fin 1)"
  shows "\<exists>k \<in> set (fpa_inactive s). fst (safe_step s) = Some k"
proof -
  from foldl_MaxSafeAlpha_cases [of s MaxSafeAlpha_ctor "fpa_inactive s"]
  show ?thesis
  proof
    assume "foldl (MaxSafeAlpha_call s) MaxSafeAlpha_ctor (fpa_inactive s) = MaxSafeAlpha_ctor"
    with assms have "dless (Fin DBL_MAX) (Fin 1)"
      by (simp add: safe_step_def MaxSafeAlpha_ctor_def)
    with DBL_MAX_ge_1 show ?thesis by simp
  next
    assume "\<exists>k\<in>set (fpa_inactive s).
      foldl (MaxSafeAlpha_call s) MaxSafeAlpha_ctor (fpa_inactive s) = (Some k, MaxSafeAlpha_alpha s k)"
    then show ?thesis by (auto simp: safe_step_def)
  qed
qed

lemma length_erase_le: "length (erase c xs) \<le> length xs"
  by (simp add: erase_def split: option.splits)

lemma length_erase_less: "k \<in> set xs \<Longrightarrow> length (erase (Some k) xs) < length xs"
  by (simp add: erase_def length_removeAll_less)

lemma make_optimal_body_shrinks:
  assumes "dless (snd (safe_step s)) (Fin 1)"
  shows "length (fpa_inactive (make_optimal_body s (safe_step s))) < length (fpa_inactive s)"
proof -
  from safe_step_below_1 [OF assms] obtain k
    where "k \<in> set (fpa_inactive s)" "fst (safe_step s) = Some k" by auto
  then show ?thesis
    using length_erase_less [of k "fpa_inactive s"]
    by (simp add: make_optimal_body_def make_active_def)
qed

lemma make_optimal_descends:
  assumes "dless (snd ca) (Fin 1)"
  shows "((make_optimal_body s ca, safe_step (make_optimal_body s ca)), (s, ca)) \<in>
    measure (\<lambda>(s, ca). 2 * length (fpa_inactive s) + (if ca = safe_step s then 0 else 1))"
proof (cases "ca = safe_step s")
  case True
  then show ?thesis
    using assms make_optimal_body_shrinks [of s] by simp
next
  case False
  then show ?thesis
    using length_erase_le [of "fst ca" "fpa_inactive s"]
    by (simp add: make_optimal_body_def make_active_def)
qed

text \<open>
  The loop of \<^verbatim>\<open>make_optimal\<close>, entered with the result \<open>ca\<close> of the search before it:
  \<^verbatim>\<open>while(alpha < 1) { make_active(c, alpha); inactive.erase(c); for_each(...); }\<close>.
\<close>

function make_optimal_loop :: "state \<Rightarrow> nat option \<times> double \<Rightarrow> state" where
  "make_optimal_loop s ca =
     (if dless (snd ca) (Fin 1) then
        (let s2 = make_optimal_body s ca in make_optimal_loop s2 (safe_step s2))
      else s)"
  by pat_completeness auto

termination
  by (relation "measure (\<lambda>(s, ca). 2 * length (fpa_inactive s) + (if ca = safe_step s then 0 else 1))")
    (use make_optimal_descends in auto)

text \<open>
  The number of times the body of the \<^verbatim>\<open>while\<close> loop runs: the recursion of
  \<open>make_optimal_loop\<close>, counting.
\<close>

function make_optimal_iterations :: "state \<Rightarrow> nat option \<times> double \<Rightarrow> nat" where
  "make_optimal_iterations s ca =
     (if dless (snd ca) (Fin 1) then
        (let s2 = make_optimal_body s ca in Suc (make_optimal_iterations s2 (safe_step s2)))
      else 0)"
  by pat_completeness auto

termination
  by (relation "measure (\<lambda>(s, ca). 2 * length (fpa_inactive s) + (if ca = safe_step s then 0 else 1))")
    (use make_optimal_descends in auto)

declare make_optimal_iterations.simps [simp del]

declare make_optimal_loop.simps [simp del]



section \<open>The traversal of compute\_dfdv, with a log\<close>

text \<open>
  \<open>compute_dfdv_log\<close> is \<open>compute_dfdv\<close> with one more result, which the source does not have:
  the list of the constraints whose multiplier was assigned, in the order of the assignments
  \<^verbatim>\<open>c->lm = ...\<close>. Dropping the log gives \<open>compute_dfdv\<close> back (\<open>compute_dfdv_log_drop\<close>).
\<close>

fun compute_dfdv_log :: "nat \<Rightarrow> state \<Rightarrow> nat \<Rightarrow> nat option \<Rightarrow> (real \<times> state \<times> nat list) option"
  and dfdv_out_log :: "nat \<Rightarrow> state \<Rightarrow> nat option \<Rightarrow> nat list \<Rightarrow> real \<Rightarrow> (real \<times> state \<times> nat list) option"
  and dfdv_in_log :: "nat \<Rightarrow> state \<Rightarrow> nat option \<Rightarrow> nat list \<Rightarrow> real \<Rightarrow> (real \<times> state \<times> nat list) option"
where
  "compute_dfdv_log n s v last_c =
     (case dfdv_out_log n s last_c (v_out (varH s v)) (2 * (v_x (varH s v) - v_d (varH s v))) of
        None \<Rightarrow> None
      | Some (dfdv, s1, es1) \<Rightarrow>
          (case dfdv_in_log n s1 last_c (v_in (varH s1 v)) dfdv of
             None \<Rightarrow> None
           | Some (dfdv', s2, es2) \<Rightarrow> Some (dfdv', s2, es1 @ es2)))"
| "dfdv_out_log n s last_c [] dfdv = Some (dfdv, s, [])"
| "dfdv_out_log n s last_c (c # cs) dfdv =
     (if Some c \<noteq> last_c \<and> c_active (conH s c) then
        (case n of
           0 \<Rightarrow> None
         | Suc m \<Rightarrow>
             (case compute_dfdv_log m s (c_r (conH s c)) (Some c) of
                None \<Rightarrow> None
              | Some (y, s1, es1) \<Rightarrow>
                  (let s2 = set_lm s1 c y
                   in case dfdv_out_log n s2 last_c cs (dfdv + c_lm (conH s2 c)) of
                        None \<Rightarrow> None
                      | Some (dfdv', s3, es2) \<Rightarrow> Some (dfdv', s3, es1 @ c # es2))))
      else dfdv_out_log n s last_c cs dfdv)"
| "dfdv_in_log n s last_c [] dfdv = Some (dfdv, s, [])"
| "dfdv_in_log n s last_c (c # cs) dfdv =
     (if Some c \<noteq> last_c \<and> c_active (conH s c) then
        (case n of
           0 \<Rightarrow> None
         | Suc m \<Rightarrow>
             (case compute_dfdv_log m s (c_l (conH s c)) (Some c) of
                None \<Rightarrow> None
              | Some (y, s1, es1) \<Rightarrow>
                  (let s2 = set_lm s1 c (- y)
                   in case dfdv_in_log n s2 last_c cs (dfdv - c_lm (conH s2 c)) of
                        None \<Rightarrow> None
                      | Some (dfdv', s3, es2) \<Rightarrow> Some (dfdv', s3, es1 @ c # es2))))
      else dfdv_in_log n s last_c cs dfdv)"

definition drop_log :: "(real \<times> state \<times> nat list) option \<Rightarrow> (real \<times> state) option" where
  "drop_log r = (case r of None \<Rightarrow> None | Some (y, s, es) \<Rightarrow> Some (y, s))"

section \<open>Named quantities of the safe step\<close>

text \<open>
  The test and the two operands of the quotient in \<open>MaxSafeAlpha_alpha\<close>, with the blocks'
  fields written out: \<open>Xl + bl + g \<le> Xr + br\<close>, \<open>g + Al - Ar\<close> and \<open>Br - Bl\<close>.
\<close>

definition full_step_ok :: "state \<Rightarrow> nat \<Rightarrow> bool" where
  "full_step_ok s c \<longleftrightarrow>
     b_X (blkH s (v_block (varH s (c_l (conH s c))))) + v_b (varH s (c_l (conH s c))) + c_g (conH s c)
       \<le> b_X (blkH s (v_block (varH s (c_r (conH s c))))) + v_b (varH s (c_r (conH s c)))"

definition alpha_num :: "state \<Rightarrow> nat \<Rightarrow> real" where
  "alpha_num s c =
     c_g (conH s c)
       + (b_XI (blkH s (v_block (varH s (c_l (conH s c))))) + v_b (varH s (c_l (conH s c))))
       - (b_XI (blkH s (v_block (varH s (c_r (conH s c))))) + v_b (varH s (c_r (conH s c))))"

definition alpha_den :: "state \<Rightarrow> nat \<Rightarrow> real" where
  "alpha_den s c =
     (b_X (blkH s (v_block (varH s (c_r (conH s c))))) - b_XI (blkH s (v_block (varH s (c_r (conH s c))))))
       - (b_X (blkH s (v_block (varH s (c_l (conH s c))))) - b_XI (blkH s (v_block (varH s (c_l (conH s c))))))"

section \<open>Active trees\<close>

text \<open>
  \<open>compute_dfdv\<close> writes multipliers only: a later state has the graph of an earlier one (the
  variables with their lists, the endpoints and the activity of the constraints).
\<close>

definition same_graph :: "state \<Rightarrow> state \<Rightarrow> bool" where
  "same_graph s s' \<longleftrightarrow>
     varH s' = varH s \<and>
     (\<forall>c. c_l (conH s' c) = c_l (conH s c) \<and> c_r (conH s' c) = c_r (conH s c) \<and>
          c_active (conH s' c) = c_active (conH s c))"

text \<open>
  The active constraints reached from a variable \<open>rt\<close> form a tree, rooted at \<open>rt\<close>, when there
  are a list \<open>ns\<close> of variables (the nodes), for each node the constraint \<open>par\<close> that joins it to
  its parent (none for the root) and its distance \<open>dep\<close> from the root, at most \<open>D\<close>, such that
  \<^item> the lists \<^verbatim>\<open>out\<close> and \<^verbatim>\<open>in\<close> of a node hold each constraint once, with that node as
    its left, respectively right, endpoint (what \<open>Constraint_ctor\<close> establishes);
  \<^item> an active constraint in the lists of a node \<open>v\<close>, other than \<open>par v\<close>, leads to a node
    one deeper whose parent constraint it is: \<open>kid s par v c w\<close> says that \<open>c\<close> leads from \<open>v\<close>
    to \<open>w\<close> in this way;
  \<^item> every node but the root is reached in this way from a node.
  A cycle of active constraints among the nodes admits no such \<open>par\<close> and \<open>dep\<close>. \<open>D\<close> bounds
  the distance of a node from the root, which is at most the diameter of the tree.
\<close>

definition kid :: "state \<Rightarrow> (nat \<Rightarrow> nat option) \<Rightarrow> nat \<Rightarrow> nat \<Rightarrow> nat \<Rightarrow> bool" where
  "kid s par v c w \<longleftrightarrow>
     Some c \<noteq> par v \<and> c_active (conH s c) \<and>
     (c \<in> set (v_out (varH s v)) \<and> w = c_r (conH s c) \<or>
      c \<in> set (v_in (varH s v)) \<and> w = c_l (conH s c))"

definition out_ok ::
  "state \<Rightarrow> nat list \<Rightarrow> (nat \<Rightarrow> nat option) \<Rightarrow> (nat \<Rightarrow> nat) \<Rightarrow> nat \<Rightarrow> nat \<Rightarrow> bool" where
  "out_ok s ns par dep v c \<longleftrightarrow>
     c_l (conH s c) = v \<and>
     (Some c \<noteq> par v \<and> c_active (conH s c) \<longrightarrow>
        c_r (conH s c) \<in> set ns \<and> par (c_r (conH s c)) = Some c \<and>
        dep (c_r (conH s c)) = Suc (dep v))"

definition in_ok ::
  "state \<Rightarrow> nat list \<Rightarrow> (nat \<Rightarrow> nat option) \<Rightarrow> (nat \<Rightarrow> nat) \<Rightarrow> nat \<Rightarrow> nat \<Rightarrow> bool" where
  "in_ok s ns par dep v c \<longleftrightarrow>
     c_r (conH s c) = v \<and>
     (Some c \<noteq> par v \<and> c_active (conH s c) \<longrightarrow>
        c_l (conH s c) \<in> set ns \<and> par (c_l (conH s c)) = Some c \<and>
        dep (c_l (conH s c)) = Suc (dep v))"

definition has_parent :: "state \<Rightarrow> nat list \<Rightarrow> (nat \<Rightarrow> nat option) \<Rightarrow> nat \<Rightarrow> bool" where
  "has_parent s ns par v \<longleftrightarrow>
     (\<exists>u\<in>set ns. \<exists>c\<in>set (v_out (varH s u) @ v_in (varH s u)). kid s par u c v)"

definition tree_node ::
  "state \<Rightarrow> nat list \<Rightarrow> nat \<Rightarrow> (nat \<Rightarrow> nat option) \<Rightarrow> (nat \<Rightarrow> nat) \<Rightarrow> nat \<Rightarrow> nat \<Rightarrow> bool" where
  "tree_node s ns rt par dep D v \<longleftrightarrow>
     dep v \<le> D \<and>
     distinct (v_out (varH s v)) \<and> distinct (v_in (varH s v)) \<and>
     (\<forall>c\<in>set (v_out (varH s v)). out_ok s ns par dep v c) \<and>
     (\<forall>c\<in>set (v_in (varH s v)). in_ok s ns par dep v c) \<and>
     (v \<noteq> rt \<longrightarrow> has_parent s ns par v)"

definition rooted_tree ::
  "state \<Rightarrow> nat list \<Rightarrow> nat \<Rightarrow> (nat \<Rightarrow> nat option) \<Rightarrow> (nat \<Rightarrow> nat) \<Rightarrow> nat \<Rightarrow> bool" where
  "rooted_tree s ns rt par dep D \<longleftrightarrow>
     rt \<in> set ns \<and> par rt = None \<and> dep rt = 0 \<and>
     (\<forall>v\<in>set ns. tree_node s ns rt par dep D v)"

text \<open>
  The parent of a node, its ancestor at depth \<open>k\<close>, and the constraints strictly below a node:
  the parent constraints of its proper descendants.
\<close>

definition up :: "state \<Rightarrow> (nat \<Rightarrow> nat option) \<Rightarrow> nat \<Rightarrow> nat" where
  "up s par w =
     (case par w of
        None \<Rightarrow> w
      | Some c \<Rightarrow> if c_l (conH s c) = w then c_r (conH s c) else c_l (conH s c))"

definition anc :: "state \<Rightarrow> (nat \<Rightarrow> nat option) \<Rightarrow> (nat \<Rightarrow> nat) \<Rightarrow> nat \<Rightarrow> nat \<Rightarrow> nat" where
  "anc s par dep k w = (up s par ^^ (dep w - k)) w"

definition below :: "state \<Rightarrow> nat list \<Rightarrow> (nat \<Rightarrow> nat option) \<Rightarrow> (nat \<Rightarrow> nat) \<Rightarrow> nat \<Rightarrow> nat set" where
  "below s ns par dep v =
     {e. \<exists>w\<in>set ns. par w = Some e \<and> dep v < dep w \<and> anc s par dep (dep v) w = v}"

section \<open>Example states\<close>

text \<open>
  \<open>chain3\<close>, \<open>level2\<close> and \<open>tie4\<close> are what the constructors and \<open>init_blocks\<close> build from
  variables and constraints (\<open>chain3_built\<close>, \<open>level2_built\<close>, \<open>tie4_built\<close>). \<open>pair_block\<close> and
  \<open>tree4\<close> hold a block of several members joined by active constraints; no function of the
  source builds one, merging being a stub.
\<close>

definition heap0 :: state where
  "heap0 =
     \<lparr>varH = (\<lambda>_. \<lparr>v_d = 0, v_x = 0, v_b = 0, v_block = 0, v_out = [], v_in = []\<rparr>),
      conH = (\<lambda>_. \<lparr>c_l = 0, c_r = 0, c_g = 0, c_active = False, c_lm = 0\<rparr>),
      blkH = (\<lambda>_. \<lparr>b_V = [], b_C = [], b_X = 0, b_XI = 0\<rparr>),
      next_blk = 0, fpa_vs = [], fpa_cs = [], fpa_inactive = [], fpa_blocks = []\<rparr>"

definition vars3 :: state where
  "vars3 = heap0\<lparr>varH := (varH heap0)
     (0 := \<lparr>v_d = 0, v_x = 0, v_b = 7, v_block = 9, v_out = [], v_in = []\<rparr>,
      1 := \<lparr>v_d = 0, v_x = 3, v_b = 7, v_block = 9, v_out = [], v_in = []\<rparr>,
      2 := \<lparr>v_d = 5, v_x = 5, v_b = 7, v_block = 9, v_out = [], v_in = []\<rparr>)\<rparr>"

definition built3 :: state where
  "built3 = FeasibleProjectionAlgorithm
     (Constraint_ctor (Constraint_ctor vars3 0 0 1 2) 1 1 2 1) [0, 1, 2] [0, 1]"

definition chain3 :: state where
  "chain3 =
     \<lparr>varH = (\<lambda>_. \<lparr>v_d = 0, v_x = 0, v_b = 0, v_block = 0, v_out = [], v_in = []\<rparr>)
        (0 := \<lparr>v_d = 0, v_x = 0, v_b = 0, v_block = 0, v_out = [0], v_in = []\<rparr>,
         1 := \<lparr>v_d = 0, v_x = 3, v_b = 0, v_block = 1, v_out = [1], v_in = [0]\<rparr>,
         2 := \<lparr>v_d = 5, v_x = 5, v_b = 0, v_block = 2, v_out = [], v_in = [1]\<rparr>),
      conH = (\<lambda>_. \<lparr>c_l = 0, c_r = 0, c_g = 0, c_active = False, c_lm = 0\<rparr>)
        (0 := \<lparr>c_l = 0, c_r = 1, c_g = 2, c_active = False, c_lm = 0\<rparr>,
         1 := \<lparr>c_l = 1, c_r = 2, c_g = 1, c_active = False, c_lm = 0\<rparr>),
      blkH = (\<lambda>_. \<lparr>b_V = [], b_C = [], b_X = 0, b_XI = 0\<rparr>)
        (0 := \<lparr>b_V = [0], b_C = [], b_X = 0, b_XI = 0\<rparr>,
         1 := \<lparr>b_V = [1], b_C = [], b_X = 0, b_XI = 3\<rparr>,
         2 := \<lparr>b_V = [2], b_C = [], b_X = 5, b_XI = 5\<rparr>),
      next_blk = 3, fpa_vs = [0, 1, 2], fpa_cs = [0, 1], fpa_inactive = [0, 1],
      fpa_blocks = [0, 1, 2]\<rparr>"

definition level2 :: state where
  "level2 =
     \<lparr>varH = (\<lambda>_. \<lparr>v_d = 0, v_x = 0, v_b = 0, v_block = 0, v_out = [], v_in = []\<rparr>)
        (0 := \<lparr>v_d = 0, v_x = 0, v_b = 0, v_block = 0, v_out = [0], v_in = []\<rparr>,
         1 := \<lparr>v_d = 0, v_x = 0, v_b = 0, v_block = 1, v_out = [], v_in = [0]\<rparr>),
      conH = (\<lambda>_. \<lparr>c_l = 0, c_r = 0, c_g = 0, c_active = False, c_lm = 0\<rparr>)
        (0 := \<lparr>c_l = 0, c_r = 1, c_g = 1, c_active = False, c_lm = 0\<rparr>),
      blkH = (\<lambda>_. \<lparr>b_V = [], b_C = [], b_X = 0, b_XI = 0\<rparr>)
        (0 := \<lparr>b_V = [0], b_C = [], b_X = 0, b_XI = 0\<rparr>,
         1 := \<lparr>b_V = [1], b_C = [], b_X = 0, b_XI = 0\<rparr>),
      next_blk = 2, fpa_vs = [0, 1], fpa_cs = [0], fpa_inactive = [0],
      fpa_blocks = [0, 1]\<rparr>"


definition tie4 :: state where
  "tie4 =
     \<lparr>varH = (\<lambda>_. \<lparr>v_d = 0, v_x = 0, v_b = 0, v_block = 0, v_out = [], v_in = []\<rparr>)
        (0 := \<lparr>v_d = 0, v_x = 0, v_b = 0, v_block = 0, v_out = [0], v_in = []\<rparr>,
         1 := \<lparr>v_d = 0, v_x = 3, v_b = 0, v_block = 1, v_out = [], v_in = [0]\<rparr>,
         2 := \<lparr>v_d = 10, v_x = 10, v_b = 0, v_block = 2, v_out = [1], v_in = []\<rparr>,
         3 := \<lparr>v_d = 10, v_x = 13, v_b = 0, v_block = 3, v_out = [], v_in = [1]\<rparr>),
      conH = (\<lambda>_. \<lparr>c_l = 0, c_r = 0, c_g = 0, c_active = False, c_lm = 0\<rparr>)
        (0 := \<lparr>c_l = 0, c_r = 1, c_g = 2, c_active = False, c_lm = 0\<rparr>,
         1 := \<lparr>c_l = 2, c_r = 3, c_g = 2, c_active = False, c_lm = 0\<rparr>),
      blkH = (\<lambda>_. \<lparr>b_V = [], b_C = [], b_X = 0, b_XI = 0\<rparr>)
        (0 := \<lparr>b_V = [0], b_C = [], b_X = 0, b_XI = 0\<rparr>,
         1 := \<lparr>b_V = [1], b_C = [], b_X = 0, b_XI = 3\<rparr>,
         2 := \<lparr>b_V = [2], b_C = [], b_X = 10, b_XI = 10\<rparr>,
         3 := \<lparr>b_V = [3], b_C = [], b_X = 10, b_XI = 13\<rparr>),
      next_blk = 4, fpa_vs = [0, 1, 2, 3], fpa_cs = [0, 1], fpa_inactive = [0, 1],
      fpa_blocks = [0, 1, 2, 3]\<rparr>"

definition tree4 :: state where
  "tree4 =
     \<lparr>varH = (\<lambda>_. \<lparr>v_d = 0, v_x = 0, v_b = 0, v_block = 0, v_out = [], v_in = []\<rparr>)
        (0 := \<lparr>v_d = 1, v_x = 0, v_b = 0, v_block = 0, v_out = [0, 3], v_in = []\<rparr>,
         1 := \<lparr>v_d = 1, v_x = 2, v_b = 2, v_block = 0, v_out = [2], v_in = [0, 1]\<rparr>,
         2 := \<lparr>v_d = 3, v_x = 5, v_b = 5, v_block = 0, v_out = [1], v_in = []\<rparr>,
         3 := \<lparr>v_d = 6, v_x = 4, v_b = 4, v_block = 0, v_out = [], v_in = [2, 3]\<rparr>),
      conH = (\<lambda>_. \<lparr>c_l = 0, c_r = 0, c_g = 0, c_active = False, c_lm = 0\<rparr>)
        (0 := \<lparr>c_l = 0, c_r = 1, c_g = 2, c_active = True, c_lm = 9\<rparr>,
         1 := \<lparr>c_l = 2, c_r = 1, c_g = -3, c_active = True, c_lm = 9\<rparr>,
         2 := \<lparr>c_l = 1, c_r = 3, c_g = 2, c_active = True, c_lm = 9\<rparr>,
         3 := \<lparr>c_l = 0, c_r = 3, c_g = 1, c_active = False, c_lm = 9\<rparr>),
      blkH = (\<lambda>_. \<lparr>b_V = [], b_C = [], b_X = 0, b_XI = 0\<rparr>)
        (0 := \<lparr>b_V = [0, 1, 2, 3], b_C = [0, 1, 2], b_X = 0, b_XI = 0\<rparr>),
      next_blk = 1, fpa_vs = [0, 1, 2, 3], fpa_cs = [0, 1, 2, 3], fpa_inactive = [3],
      fpa_blocks = [0]\<rparr>"

definition par4 :: "nat \<Rightarrow> nat option" where
  "par4 = (\<lambda>_. None)(1 := Some 0, 2 := Some 1, 3 := Some 2)"

definition dep4 :: "nat \<Rightarrow> nat" where
  "dep4 = (\<lambda>_. 0)(1 := 1, 2 := 2, 3 := 2)"

lemma chain3_built: "init_blocks built3 = chain3"
  by (simp add: built3_def vars3_def heap0_def chain3_def Constraint_ctor_def
      FeasibleProjectionAlgorithm_def init_blocks_def Block_ctor_def Let_def numeral_2_eq_2 numeral_3_eq_3)

lemma level2_built:
  "init_blocks (FeasibleProjectionAlgorithm
     (Constraint_ctor (heap0\<lparr>varH := (varH heap0)
        (0 := \<lparr>v_d = 0, v_x = 0, v_b = 7, v_block = 9, v_out = [], v_in = []\<rparr>,
         1 := \<lparr>v_d = 0, v_x = 0, v_b = 7, v_block = 9, v_out = [], v_in = []\<rparr>)\<rparr>) 0 0 1 1)
     [0, 1] [0]) = level2"
  by (simp add: heap0_def level2_def Constraint_ctor_def
      FeasibleProjectionAlgorithm_def init_blocks_def Block_ctor_def Let_def numeral_2_eq_2)

lemma tie4_built:
  "init_blocks (FeasibleProjectionAlgorithm
     (Constraint_ctor (Constraint_ctor (heap0\<lparr>varH := (varH heap0)
        (0 := \<lparr>v_d = 0, v_x = 0, v_b = 7, v_block = 9, v_out = [], v_in = []\<rparr>,
         1 := \<lparr>v_d = 0, v_x = 3, v_b = 7, v_block = 9, v_out = [], v_in = []\<rparr>,
         2 := \<lparr>v_d = 10, v_x = 10, v_b = 7, v_block = 9, v_out = [], v_in = []\<rparr>,
         3 := \<lparr>v_d = 10, v_x = 13, v_b = 7, v_block = 9, v_out = [], v_in = []\<rparr>)\<rparr>)
        0 0 1 2) 1 2 3 2)
     [0, 1, 2, 3] [0, 1]) = tie4"
  by (simp add: heap0_def tie4_def Constraint_ctor_def
      FeasibleProjectionAlgorithm_def init_blocks_def Block_ctor_def Let_def
      numeral_2_eq_2 numeral_3_eq_3 eval_nat_numeral)

lemma tree4_rooted: "rooted_tree tree4 [0, 1, 2, 3] 0 par4 dep4 2"
  by (simp add: rooted_tree_def tree_node_def out_ok_def in_ok_def has_parent_def kid_def
      tree4_def par4_def dep4_def)

section \<open>Properties of Block\<close>





lemma foldl_reset_lm:
  "varH (foldl reset_lm s cs) = varH s \<and> blkH (foldl reset_lm s cs) = blkH s \<and>
   conH (foldl reset_lm s cs) =
     (\<lambda>c. if c \<in> set cs then (conH s c)\<lparr>c_lm := 0\<rparr> else conH s c)"
proof (induction cs arbitrary: s)
  case Nil
  show ?case by simp
next
  case (Cons a cs)
  have "foldl reset_lm s (a # cs) = foldl reset_lm (reset_lm s a) cs" by simp
  with Cons [of "reset_lm s a"] show ?case
    by (auto simp: reset_lm_def set_lm_def fun_eq_iff)
qed

lemma tree4_child: "map_option fst (compute_dfdv 1 tree4 1 (Some 0)) = Some 2"
  by (simp add: tree4_def set_lm_def)

lemma tree4_multipliers:
  "map_sum id (\<lambda>s. map (\<lambda>c. c_lm (conH s c)) [0, 1, 2, 3]) (computeLagrangians 2 tree4 0)
     = Inr [2, - 4, - 4, 9]"
  by (simp add: computeLagrangians_def tree4_def set_lm_def reset_lm_def numeral_2_eq_2)

text \<open>
  Claim C3. \<open>computeLagrangians\<close> sets the multiplier of every constraint of the list \<^verbatim>\<open>C\<close> of
  the block to zero and changes no other, then calls \<open>compute_dfdv\<close> on the first member with
  no last constraint. \<open>compute_dfdv\<close> on \<open>v\<close> starts from \<open>2 * (v.x - v.d)\<close> and runs through
  \<^verbatim>\<open>v->out\<close>, then \<^verbatim>\<open>v->in\<close>. An active constraint \<open>c\<close> of \<^verbatim>\<open>v->out\<close> other than the one the call
  came by gets as multiplier the value \<open>y\<close> of the recursive call on its right endpoint, which
  is added to the running value; one of \<^verbatim>\<open>v->in\<close> gets \<open>- y\<close> for the value \<open>y\<close> of the call
  on its left endpoint, which is subtracted. Any other constraint is passed over. (In a tree
  the constraint the call came by is the only adjacent active one visited before: claim C7.)
\<close>

theorem computeLagrangians_recurrence:
  "(\<forall>c. conH (foldl reset_lm s (b_C (blkH s this))) c =
        (if c \<in> set (b_C (blkH s this)) then (conH s c)\<lparr>c_lm := 0\<rparr> else conH s c)) \<and>
   computeLagrangians n s this =
     (case b_V (blkH s this) of
        [] \<Rightarrow> Inl Empty_block
      | v0 # _ \<Rightarrow>
          (case compute_dfdv n (foldl reset_lm s (b_C (blkH s this))) v0 None of
             None \<Rightarrow> Inl Too_deep
           | Some (dfdv, s2) \<Rightarrow> Inr s2)) \<and>
   compute_dfdv n s v last_c =
     (case dfdv_out n s last_c (v_out (varH s v)) (2 * (v_x (varH s v) - v_d (varH s v))) of
        None \<Rightarrow> None
      | Some (a, s1) \<Rightarrow> dfdv_in n s1 last_c (v_in (varH s1 v)) a) \<and>
   (Some c \<noteq> last_c \<and> c_active (conH s c) \<and>
    compute_dfdv n s (c_r (conH s c)) (Some c) = Some (y, s1) \<longrightarrow>
      dfdv_out (Suc n) s last_c (c # cs) a = dfdv_out (Suc n) (set_lm s1 c y) last_c cs (a + y) \<and>
      c_lm (conH (set_lm s1 c y) c) = y) \<and>
   (Some c \<noteq> last_c \<and> c_active (conH s c) \<and>
    compute_dfdv n s (c_l (conH s c)) (Some c) = Some (y, s1) \<longrightarrow>
      dfdv_in (Suc n) s last_c (c # cs) a =
        dfdv_in (Suc n) (set_lm s1 c (- y)) last_c cs (a - (- y)) \<and>
      c_lm (conH (set_lm s1 c (- y)) c) = - y) \<and>
   (\<not> (Some c \<noteq> last_c \<and> c_active (conH s c)) \<longrightarrow>
      dfdv_out n s last_c (c # cs) a = dfdv_out n s last_c cs a \<and>
      dfdv_in n s last_c (c # cs) a = dfdv_in n s last_c cs a) \<and>
   dfdv_out n s last_c [] a = Some (a, s) \<and> dfdv_in n s last_c [] a = Some (a, s)"
proof (intro conjI impI allI)
  fix c'
  show "conH (foldl reset_lm s (b_C (blkH s this))) c' =
        (if c' \<in> set (b_C (blkH s this)) then (conH s c')\<lparr>c_lm := 0\<rparr> else conH s c')"
    using foldl_reset_lm [of s "b_C (blkH s this)"] by simp
next
  show "computeLagrangians n s this =
     (case b_V (blkH s this) of
        [] \<Rightarrow> Inl Empty_block
      | v0 # _ \<Rightarrow>
          (case compute_dfdv n (foldl reset_lm s (b_C (blkH s this))) v0 None of
             None \<Rightarrow> Inl Too_deep
           | Some (dfdv, s2) \<Rightarrow> Inr s2))"
    using foldl_reset_lm [of s "b_C (blkH s this)"]
    by (simp add: computeLagrangians_def Let_def del: compute_dfdv.simps)
next
  show "compute_dfdv n s v last_c =
     (case dfdv_out n s last_c (v_out (varH s v)) (2 * (v_x (varH s v) - v_d (varH s v))) of
        None \<Rightarrow> None
      | Some (a, s1) \<Rightarrow> dfdv_in n s1 last_c (v_in (varH s1 v)) a)"
    by (rule compute_dfdv.simps)
next
  assume h: "Some c \<noteq> last_c \<and> c_active (conH s c) \<and>
    compute_dfdv n s (c_r (conH s c)) (Some c) = Some (y, s1)"
  have "c_lm (conH (set_lm s1 c y) c) = y" by (simp add: set_lm_def)
  with h show "dfdv_out (Suc n) s last_c (c # cs) a =
      dfdv_out (Suc n) (set_lm s1 c y) last_c cs (a + y)"
    by (simp add: Let_def del: compute_dfdv.simps)
next
  show "c_lm (conH (set_lm s1 c y) c) = y" by (simp add: set_lm_def)
next
  assume h: "Some c \<noteq> last_c \<and> c_active (conH s c) \<and>
    compute_dfdv n s (c_l (conH s c)) (Some c) = Some (y, s1)"
  have "c_lm (conH (set_lm s1 c (- y)) c) = - y" by (simp add: set_lm_def)
  with h show "dfdv_in (Suc n) s last_c (c # cs) a =
      dfdv_in (Suc n) (set_lm s1 c (- y)) last_c cs (a - (- y))"
    by (simp add: Let_def del: compute_dfdv.simps)
next
  show "c_lm (conH (set_lm s1 c (- y)) c) = - y" by (simp add: set_lm_def)
next
  assume "\<not> (Some c \<noteq> last_c \<and> c_active (conH s c))"
  then show "dfdv_out n s last_c (c # cs) a = dfdv_out n s last_c cs a" by auto
next
  assume "\<not> (Some c \<noteq> last_c \<and> c_active (conH s c))"
  then show "dfdv_in n s last_c (c # cs) a = dfdv_in n s last_c cs a" by auto
next
  show "dfdv_out n s last_c [] a = Some (a, s)" by simp
next
  show "dfdv_in n s last_c [] a = Some (a, s)" by simp
qed

theorem computeLagrangians_recurrence_witness:
  "(\<exists>s1. compute_dfdv 1 tree4 1 (Some 0) = Some (2, s1) \<and>
      dfdv_out 2 tree4 None [0, 3] (- 2) = dfdv_out 2 (set_lm s1 0 2) None [3] (- 2 + 2) \<and>
      c_lm (conH (set_lm s1 0 2) 0) = 2) \<and>
   (\<exists>s1. compute_dfdv 1 tree4 2 (Some 1) = Some (4, s1) \<and>
      dfdv_in 2 tree4 (Some 0) [1] (- 2) = dfdv_in 2 (set_lm s1 1 (- 4)) (Some 0) [] (- 2 - (- 4)) \<and>
      c_lm (conH (set_lm s1 1 (- 4)) 1) = - 4) \<and>
   dfdv_in 1 tree4 (Some 2) [2, 3] (- 4) = dfdv_in 1 tree4 (Some 2) [3] (- 4) \<and>
   map_sum id (\<lambda>s. map (\<lambda>c. c_lm (conH s c)) [0, 1, 2, 3]) (computeLagrangians 2 tree4 0)
     = Inr [2, - 4, - 4, 9]"
proof -
  obtain s1 where a: "compute_dfdv 1 tree4 1 (Some 0) = Some (2, s1)"
    using tree4_child by (cases "compute_dfdv 1 tree4 1 (Some 0)") auto
  have f: "c_active (conH tree4 0)" "c_r (conH tree4 0) = 1"
    "c_active (conH tree4 1)" "c_l (conH tree4 1) = 2"
    by (simp_all add: tree4_def)
  have a1: "Some 0 \<noteq> (None :: nat option) \<and> c_active (conH tree4 0) \<and>
      compute_dfdv 1 tree4 (c_r (conH tree4 0)) (Some 0) = Some (2, s1)"
    using a f by (simp del: compute_dfdv.simps)
  note t1 = computeLagrangians_recurrence [of tree4 0 1 1 None 0 2 s1 "[3]" "- 2",
      THEN conjunct2, THEN conjunct2, THEN conjunct2, THEN conjunct1, rule_format, OF a1]
  have "map_option fst (compute_dfdv 1 tree4 2 (Some 1)) = Some 4"
    by (simp add: tree4_def set_lm_def)
  then obtain s2 where b: "compute_dfdv 1 tree4 2 (Some 1) = Some (4, s2)"
    by (cases "compute_dfdv 1 tree4 2 (Some 1)") auto
  have b1: "Some 1 \<noteq> Some (0::nat) \<and> c_active (conH tree4 1) \<and>
      compute_dfdv 1 tree4 (c_l (conH tree4 1)) (Some 1) = Some (4, s2)"
    using b f by (simp del: compute_dfdv.simps)
  note t2 = computeLagrangians_recurrence [of tree4 0 1 1 "Some 0" 1 4 s2 "[]" "- 2",
      THEN conjunct2, THEN conjunct2, THEN conjunct2, THEN conjunct2, THEN conjunct1,
      rule_format, OF b1]
  have c1: "\<not> (Some 2 \<noteq> Some (2::nat) \<and> c_active (conH tree4 2))" by simp
  note t3 = computeLagrangians_recurrence [of tree4 0 1 1 "Some 2" 2 0 tree4 "[3]" "- 4",
      THEN conjunct2, THEN conjunct2, THEN conjunct2, THEN conjunct2, THEN conjunct2,
      THEN conjunct1, rule_format, OF c1, THEN conjunct2]
  from a t1 have "\<exists>s1. compute_dfdv 1 tree4 1 (Some 0) = Some (2, s1) \<and>
      dfdv_out 2 tree4 None [0, 3] (- 2) = dfdv_out 2 (set_lm s1 0 2) None [3] (- 2 + 2) \<and>
      c_lm (conH (set_lm s1 0 2) 0) = 2"
    by (auto simp: numeral_2_eq_2 simp del: compute_dfdv.simps dfdv_out.simps)
  moreover from b t2 have "\<exists>s1. compute_dfdv 1 tree4 2 (Some 1) = Some (4, s1) \<and>
      dfdv_in 2 tree4 (Some 0) [1] (- 2) = dfdv_in 2 (set_lm s1 1 (- 4)) (Some 0) [] (- 2 - (- 4)) \<and>
      c_lm (conH (set_lm s1 1 (- 4)) 1) = - 4"
    by (auto simp: numeral_2_eq_2 simp del: compute_dfdv.simps dfdv_in.simps)
  ultimately show ?thesis using t3 tree4_multipliers by blast
qed

lemma drop_log_simps:
  "drop_log None = None" "drop_log (Some (y, s, es)) = Some (y, s)"
  by (simp_all add: drop_log_def)

lemma compute_dfdv_log_drop:
  "drop_log (compute_dfdv_log n s v last_c) = compute_dfdv n s v last_c"
  "drop_log (dfdv_out_log n s last_c cs a) = dfdv_out n s last_c cs a"
  "drop_log (dfdv_in_log n s last_c cs a) = dfdv_in n s last_c cs a"
proof (induction n s v last_c and n s last_c cs a and n s last_c cs a
    rule: compute_dfdv_log_dfdv_out_log_dfdv_in_log.induct)
  case (1 n s v last_c)
  show ?case
  proof (cases "dfdv_out_log n s last_c (v_out (varH s v)) (2 * (v_x (varH s v) - v_d (varH s v)))")
    case None
    with "1.IH"(1) show ?thesis by (simp add: drop_log_def)
  next
    case (Some r)
    obtain a s1 es1 where r: "r = (a, s1, es1)" by (cases r)
    from "1.IH"(1) Some r
    have o: "dfdv_out n s last_c (v_out (varH s v)) (2 * (v_x (varH s v) - v_d (varH s v))) = Some (a, s1)"
      by (simp add: drop_log_def)
    from "1.IH"(2) [OF Some r [symmetric] refl]
    have i: "drop_log (dfdv_in_log n s1 last_c (v_in (varH s1 v)) a) = dfdv_in n s1 last_c (v_in (varH s1 v)) a"
      by simp
    show ?thesis using Some r o i
      by (auto simp add: drop_log_def split: option.splits)
  qed
next
  case (2 n s last_c dfdv)
  show ?case by (simp add: drop_log_def)
next
  case (3 n s last_c c cs dfdv)
  show ?case
  proof (cases "Some c \<noteq> last_c \<and> c_active (conH s c)")
    case False
    with "3.IH"(3) show ?thesis by auto
  next
    case True
    show ?thesis
    proof (cases n)
      case 0
      with True show ?thesis by (simp add: drop_log_def)
    next
      case (Suc m)
      show ?thesis
      proof (cases "compute_dfdv_log m s (c_r (conH s c)) (Some c)")
        case None
        with "3.IH"(1) [OF True Suc] True Suc show ?thesis by (simp add: drop_log_def)
      next
        case (Some r)
        obtain y s1 es1 where r: "r = (y, s1, es1)" by (cases r)
        from "3.IH"(1) [OF True Suc] Some r
        have o: "compute_dfdv m s (c_r (conH s c)) (Some c) = Some (y, s1)"
          by (simp add: drop_log_def)
        from "3.IH"(2) [OF True Suc Some r [symmetric] refl refl]
        have i: "drop_log (dfdv_out_log n (set_lm s1 c y) last_c cs (dfdv + c_lm (conH (set_lm s1 c y) c)))
          = dfdv_out n (set_lm s1 c y) last_c cs (dfdv + c_lm (conH (set_lm s1 c y) c))"
          by simp
        show ?thesis using True Suc Some r o i
          by (auto simp add: drop_log_def Let_def split: option.splits)
      qed
    qed
  qed
next
  case (4 n s last_c dfdv)
  show ?case by (simp add: drop_log_def)
next
  case (5 n s last_c c cs dfdv)
  show ?case
  proof (cases "Some c \<noteq> last_c \<and> c_active (conH s c)")
    case False
    with "5.IH"(3) show ?thesis by auto
  next
    case True
    show ?thesis
    proof (cases n)
      case 0
      with True show ?thesis by (simp add: drop_log_def)
    next
      case (Suc m)
      show ?thesis
      proof (cases "compute_dfdv_log m s (c_l (conH s c)) (Some c)")
        case None
        with "5.IH"(1) [OF True Suc] True Suc show ?thesis by (simp add: drop_log_def)
      next
        case (Some r)
        obtain y s1 es1 where r: "r = (y, s1, es1)" by (cases r)
        from "5.IH"(1) [OF True Suc] Some r
        have o: "compute_dfdv m s (c_l (conH s c)) (Some c) = Some (y, s1)"
          by (simp add: drop_log_def)
        from "5.IH"(2) [OF True Suc Some r [symmetric] refl refl]
        have i: "drop_log (dfdv_in_log n (set_lm s1 c (- y)) last_c cs (dfdv - c_lm (conH (set_lm s1 c (- y)) c)))
          = dfdv_in n (set_lm s1 c (- y)) last_c cs (dfdv - c_lm (conH (set_lm s1 c (- y)) c))"
          by simp
        show ?thesis using True Suc Some r o i
          by (auto simp add: drop_log_def Let_def split: option.splits)
      qed
    qed
  qed
qed

lemma same_graph_refl: "same_graph s s"
  by (simp add: same_graph_def)

lemma same_graph_set_lm: "same_graph s s' \<Longrightarrow> same_graph s (set_lm s' c y)"
  by (simp add: same_graph_def set_lm_def)

lemma tree_root:
  assumes "rooted_tree s ns rt par dep D"
  shows "rt \<in> set ns" "par rt = None" "dep rt = 0"
  using assms by (simp_all add: rooted_tree_def)

lemma tree_at:
  assumes "rooted_tree s ns rt par dep D" and "v \<in> set ns"
  shows "tree_node s ns rt par dep D v"
proof -
  from assms(1) have "\<forall>v\<in>set ns. tree_node s ns rt par dep D v"
    by (simp add: rooted_tree_def)
  from this assms(2) show ?thesis by (rule bspec)
qed

lemma tree_node:
  assumes "rooted_tree s ns rt par dep D" and "v \<in> set ns"
  shows "dep v \<le> D" "distinct (v_out (varH s v))" "distinct (v_in (varH s v))"
  using tree_at [OF assms] by (simp_all add: tree_node_def)

lemma tree_out:
  assumes "rooted_tree s ns rt par dep D" and "v \<in> set ns" and "c \<in> set (v_out (varH s v))"
  shows "out_ok s ns par dep v c"
proof -
  from tree_at [OF assms(1,2)] have "\<forall>c\<in>set (v_out (varH s v)). out_ok s ns par dep v c"
    by (simp add: tree_node_def)
  from this assms(3) show ?thesis by (rule bspec)
qed

lemma tree_in:
  assumes "rooted_tree s ns rt par dep D" and "v \<in> set ns" and "c \<in> set (v_in (varH s v))"
  shows "in_ok s ns par dep v c"
proof -
  from tree_at [OF assms(1,2)] have "\<forall>c\<in>set (v_in (varH s v)). in_ok s ns par dep v c"
    by (simp add: tree_node_def)
  from this assms(3) show ?thesis by (rule bspec)
qed

lemma tree_out_left:
  assumes "rooted_tree s ns rt par dep D" and "v \<in> set ns" and "c \<in> set (v_out (varH s v))"
  shows "c_l (conH s c) = v"
  using tree_out [OF assms] by (simp add: out_ok_def)

lemma tree_in_right:
  assumes "rooted_tree s ns rt par dep D" and "v \<in> set ns" and "c \<in> set (v_in (varH s v))"
  shows "c_r (conH s c) = v"
  using tree_in [OF assms] by (simp add: in_ok_def)

lemma tree_kid:
  assumes T: "rooted_tree s ns rt par dep D" and v: "v \<in> set ns" and k: "kid s par v c w"
  shows "w \<in> set ns" "par w = Some c" "dep w = Suc (dep v)" "up s par w = v"
proof -
  from k have cond: "Some c \<noteq> par v \<and> c_active (conH s c)"
    and side: "c \<in> set (v_out (varH s v)) \<and> w = c_r (conH s c) \<or>
      c \<in> set (v_in (varH s v)) \<and> w = c_l (conH s c)"
    by (simp_all add: kid_def)
  from side have main: "w \<in> set ns \<and> par w = Some c \<and> dep w = Suc (dep v) \<and>
    (c_l (conH s c) = v \<and> w = c_r (conH s c) \<or> c_r (conH s c) = v \<and> w = c_l (conH s c))"
  proof
    assume a: "c \<in> set (v_out (varH s v)) \<and> w = c_r (conH s c)"
    then have "out_ok s ns par dep v c" using tree_out [OF T v] by simp
    with a cond show ?thesis by (simp add: out_ok_def)
  next
    assume a: "c \<in> set (v_in (varH s v)) \<and> w = c_l (conH s c)"
    then have "in_ok s ns par dep v c" using tree_in [OF T v] by simp
    with a cond show ?thesis by (simp add: in_ok_def)
  qed
  then show "w \<in> set ns" "par w = Some c" "dep w = Suc (dep v)" by simp_all
  from main have ne: "w \<noteq> v" by auto
  from main have p: "par w = Some c" by simp
  from main have "c_l (conH s c) = v \<and> w = c_r (conH s c) \<or> c_r (conH s c) = v \<and> w = c_l (conH s c)"
    by simp
  then show "up s par w = v"
  proof
    assume "c_l (conH s c) = v \<and> w = c_r (conH s c)"
    with ne p show ?thesis by (simp add: up_def)
  next
    assume "c_r (conH s c) = v \<and> w = c_l (conH s c)"
    with ne p show ?thesis by (simp add: up_def)
  qed
qed

lemma tree_parent:
  assumes T: "rooted_tree s ns rt par dep D" and w: "w \<in> set ns" and nr: "w \<noteq> rt"
  shows "\<exists>c. kid s par (up s par w) c w \<and> up s par w \<in> set ns"
proof -
  from tree_at [OF T w] nr have "has_parent s ns par w" by (simp add: tree_node_def)
  then obtain u c where u: "u \<in> set ns" and k: "kid s par u c w"
    unfolding has_parent_def by blast
  from tree_kid(4) [OF T u k] have "up s par w = u" .
  with u k show ?thesis by blast
qed

lemma tree_dep_Suc:
  assumes T: "rooted_tree s ns rt par dep D" and w: "w \<in> set ns" and nr: "w \<noteq> rt"
  shows "dep w = Suc (dep (up s par w))"
proof -
  from tree_parent [OF T w nr] obtain c
    where "kid s par (up s par w) c w" "up s par w \<in> set ns" by blast
  then show ?thesis using tree_kid(3) [OF T] by blast
qed

lemma funpow_up:
  assumes T: "rooted_tree s ns rt par dep D" and w: "w \<in> set ns"
  shows "j \<le> dep w \<Longrightarrow> (up s par ^^ j) w \<in> set ns \<and> dep ((up s par ^^ j) w) = dep w - j"
proof (induction j)
  case 0
  with w show ?case by simp
next
  case (Suc j)
  let ?u = "(up s par ^^ j) w"
  from Suc have u: "?u \<in> set ns" and d: "dep ?u = dep w - j" by simp_all
  from d Suc.prems have "dep ?u \<noteq> 0" by simp
  with tree_root(3) [OF T] have nr: "?u \<noteq> rt" by auto
  from tree_parent [OF T u nr] have "up s par ?u \<in> set ns" by blast
  moreover from tree_dep_Suc [OF T u nr] d have "dep (up s par ?u) = dep w - Suc j" by simp
  ultimately show ?case by simp
qed

lemma anc_node:
  assumes T: "rooted_tree s ns rt par dep D" and w: "w \<in> set ns" and k: "k \<le> dep w"
  shows "anc s par dep k w \<in> set ns" "dep (anc s par dep k w) = k"
  using funpow_up [OF T w, of "dep w - k"] k by (simp_all add: anc_def)

lemma anc_step: "k < dep w \<Longrightarrow> anc s par dep k w = up s par (anc s par dep (Suc k) w)"
proof -
  assume "k < dep w"
  then have "dep w - k = Suc (dep w - Suc k)" by simp
  then show ?thesis by (simp add: anc_def)
qed

lemma anc_self: "anc s par dep (dep w) w = w"
  by (simp add: anc_def)

lemma kid_sides:
  assumes "kid s par v c w"
  shows "Some c \<noteq> par v" "c_active (conH s c)"
    "c \<in> set (v_out (varH s v)) \<and> w = c_r (conH s c) \<or>
     c \<in> set (v_in (varH s v)) \<and> w = c_l (conH s c)"
  using assms by (simp_all add: kid_def)

lemma par_inj:
  assumes T: "rooted_tree s ns rt par dep D" and w: "w \<in> set ns" and w': "w' \<in> set ns"
    and p: "par w = Some e" and p': "par w' = Some e"
  shows "w = w'"
proof -
  from p p' tree_root(2) [OF T] have nr: "w \<noteq> rt" "w' \<noteq> rt" by auto
  from tree_parent [OF T w nr(1)] obtain c
    where k: "kid s par (up s par w) c w" and u: "up s par w \<in> set ns" by blast
  from tree_parent [OF T w' nr(2)] obtain c'
    where k': "kid s par (up s par w') c' w'" and u': "up s par w' \<in> set ns" by blast
  from tree_kid(2) [OF T u k] p have c: "c = e" by simp
  from tree_kid(2) [OF T u' k'] p' have c': "c' = e" by simp
  note s = kid_sides(3) [OF k, unfolded c]
  note s' = kid_sides(3) [OF k', unfolded c']
  have d: "dep w = Suc (dep (up s par w))" "dep w' = Suc (dep (up s par w'))"
    using tree_dep_Suc [OF T w nr(1)] tree_dep_Suc [OF T w' nr(2)] by simp_all
  show ?thesis
  proof (rule ccontr)
    assume ne: "w \<noteq> w'"
    from s s' ne consider
      (a) "e \<in> set (v_out (varH s (up s par w)))" "w = c_r (conH s e)"
          "e \<in> set (v_in (varH s (up s par w')))" "w' = c_l (conH s e)"
    | (b) "e \<in> set (v_in (varH s (up s par w)))" "w = c_l (conH s e)"
          "e \<in> set (v_out (varH s (up s par w')))" "w' = c_r (conH s e)"
      by blast
    then show False
    proof cases
      case a
      from tree_out_left [OF T u a(1)] a(4) have "up s par w = w'" by simp
      moreover from tree_in_right [OF T u' a(3)] a(2) have "up s par w' = w" by simp
      ultimately show False using d by simp
    next
      case b
      from tree_in_right [OF T u b(1)] b(4) have "up s par w = w'" by simp
      moreover from tree_out_left [OF T u' b(3)] b(2) have "up s par w' = w" by simp
      ultimately show False using d by simp
    qed
  qed
qed

lemma below_under:
  assumes T: "rooted_tree s ns rt par dep D" and v: "v \<in> set ns" and k: "kid s par v c w"
    and e: "e = c \<or> e \<in> below s ns par dep w"
  shows "\<exists>x\<in>set ns. par x = Some e \<and> dep v < dep x \<and> anc s par dep (Suc (dep v)) x = w"
proof -
  note kw = tree_kid [OF T v k]
  from e show ?thesis
  proof
    assume "e = c"
    with kw anc_self [of s par dep w] show ?thesis by auto
  next
    assume "e \<in> below s ns par dep w"
    then obtain x where "x \<in> set ns" "par x = Some e" "dep w < dep x"
      "anc s par dep (dep w) x = w"
      unfolding below_def by blast
    with kw(3) show ?thesis by auto
  qed
qed

lemma below_unfold:
  assumes T: "rooted_tree s ns rt par dep D" and v: "v \<in> set ns"
  shows "below s ns par dep v =
    {e. \<exists>c w. kid s par v c w \<and> (e = c \<or> e \<in> below s ns par dep w)}"
proof (intro set_eqI iffI)
  fix e
  assume "e \<in> below s ns par dep v"
  then obtain x where x: "x \<in> set ns" and px: "par x = Some e" and dx: "dep v < dep x"
    and ax: "anc s par dep (dep v) x = v"
    unfolding below_def by blast
  let ?w = "anc s par dep (Suc (dep v)) x"
  from dx have le: "Suc (dep v) \<le> dep x" by simp
  note w = anc_node [OF T x le]
  from anc_step [where k = "dep v" and dep = dep and w = x and s = s and par = par] dx ax
  have upw: "up s par ?w = v" by simp
  from w(2) tree_root(3) [OF T] have "?w \<noteq> rt" by auto
  from tree_parent [OF T w(1) this] upw obtain c where k: "kid s par v c ?w" by auto
  have "e = c \<or> e \<in> below s ns par dep ?w"
  proof (cases "dep x = Suc (dep v)")
    case True
    then have "?w = x" by (simp add: anc_def)
    with tree_kid(2) [OF T v k] px show ?thesis by simp
  next
    case False
    with le have "dep ?w < dep x" by (simp add: w(2))
    moreover have "anc s par dep (dep ?w) x = ?w" by (simp add: w(2))
    ultimately have "e \<in> below s ns par dep ?w"
      unfolding below_def using x px by blast
    then show ?thesis ..
  qed
  with k show "e \<in> {e. \<exists>c w. kid s par v c w \<and> (e = c \<or> e \<in> below s ns par dep w)}"
    by blast
next
  fix e
  assume "e \<in> {e. \<exists>c w. kid s par v c w \<and> (e = c \<or> e \<in> below s ns par dep w)}"
  then obtain c w where k: "kid s par v c w" and e: "e = c \<or> e \<in> below s ns par dep w"
    by blast
  from below_under [OF T v k e] obtain x where x: "x \<in> set ns" and px: "par x = Some e"
    and dx: "dep v < dep x" and ax: "anc s par dep (Suc (dep v)) x = w"
    by blast
  from anc_step [where k = "dep v" and dep = dep and w = x and s = s and par = par] dx ax
    tree_kid(4) [OF T v k]
  have "anc s par dep (dep v) x = v" by simp
  with x px dx show "e \<in> below s ns par dep v"
    unfolding below_def by blast
qed

lemma below_disjoint:
  assumes T: "rooted_tree s ns rt par dep D" and v: "v \<in> set ns"
    and k1: "kid s par v c1 w1" and k2: "kid s par v c2 w2" and ne: "c1 \<noteq> c2"
    and e1: "e = c1 \<or> e \<in> below s ns par dep w1"
  shows "\<not> (e = c2 \<or> e \<in> below s ns par dep w2)"
proof
  assume e2: "e = c2 \<or> e \<in> below s ns par dep w2"
  from below_under [OF T v k1 e1] obtain x where x: "x \<in> set ns" "par x = Some e"
    "anc s par dep (Suc (dep v)) x = w1" by blast
  from below_under [OF T v k2 e2] obtain y where y: "y \<in> set ns" "par y = Some e"
    "anc s par dep (Suc (dep v)) y = w2" by blast
  from par_inj [OF T x(1) y(1) x(2) y(2)] x(3) y(3) have "w1 = w2" by simp
  with tree_kid(2) [OF T v k1] tree_kid(2) [OF T v k2] ne show False by simp
qed

lemma not_below_self:
  assumes T: "rooted_tree s ns rt par dep D" and v: "v \<in> set ns" and k: "kid s par v c w"
  shows "c \<notin> below s ns par dep w"
proof
  assume "c \<in> below s ns par dep w"
  then obtain x where x: "x \<in> set ns" "par x = Some c" "dep w < dep x"
    unfolding below_def by blast
  from par_inj [OF T x(1) tree_kid(1) [OF T v k] x(2) tree_kid(2) [OF T v k]] x(3)
  show False by simp
qed

lemma anc_root:
  assumes T: "rooted_tree s ns rt par dep D" and w: "w \<in> set ns"
  shows "anc s par dep 0 w = rt"
proof (rule ccontr)
  assume ne: "anc s par dep 0 w \<noteq> rt"
  have n: "anc s par dep 0 w \<in> set ns" "dep (anc s par dep 0 w) = 0"
    using anc_node [OF T w, of 0] by simp_all
  from tree_dep_Suc [OF T n(1) ne] n(2) show False by simp
qed

lemma below_root:
  assumes T: "rooted_tree s ns rt par dep D"
  shows "below s ns par dep rt =
    {c. c_active (conH s c) \<and> (\<exists>v\<in>set ns. c \<in> set (v_out (varH s v)) \<union> set (v_in (varH s v)))}"
proof (intro set_eqI iffI)
  fix e
  assume "e \<in> below s ns par dep rt"
  then obtain x where x: "x \<in> set ns" and px: "par x = Some e" and dx: "dep rt < dep x"
    unfolding below_def by blast
  from dx have "x \<noteq> rt" by auto
  from tree_parent [OF T x this] obtain c
    where k: "kid s par (up s par x) c x" and u: "up s par x \<in> set ns" by blast
  from tree_kid(2) [OF T u k] px have "c = e" by simp
  with kid_sides [OF k] u
  show "e \<in> {c. c_active (conH s c) \<and>
      (\<exists>v\<in>set ns. c \<in> set (v_out (varH s v)) \<union> set (v_in (varH s v)))}"
    by blast
next
  fix e
  assume "e \<in> {c. c_active (conH s c) \<and>
      (\<exists>v\<in>set ns. c \<in> set (v_out (varH s v)) \<union> set (v_in (varH s v)))}"
  then obtain v where act: "c_active (conH s e)" and v: "v \<in> set ns"
    and inc: "e \<in> set (v_out (varH s v)) \<or> e \<in> set (v_in (varH s v))"
    by blast
  have "\<exists>x\<in>set ns. par x = Some e"
  proof (cases "par v = Some e")
    case True
    with v show ?thesis by blast
  next
    case False
    from inc obtain w where "kid s par v e w"
      unfolding kid_def using False act by auto
    from tree_kid(1,2) [OF T v this] show ?thesis by blast
  qed
  then obtain x where x: "x \<in> set ns" and px: "par x = Some e" by blast
  from px tree_root(2) [OF T] have "x \<noteq> rt" by auto
  from tree_dep_Suc [OF T x this] tree_root(3) [OF T] have "dep rt < dep x" by simp
  moreover from anc_root [OF T x] tree_root(3) [OF T] have "anc s par dep (dep rt) x = rt"
    by simp
  ultimately show "e \<in> below s ns par dep rt"
    unfolding below_def using x px by blast
qed

lemma dfdv_out_log_tree:
  assumes T: "rooted_tree s ns rt par dep D"
    and IH: "\<And>m s' w. m < n \<Longrightarrow> same_graph s s' \<Longrightarrow> w \<in> set ns \<Longrightarrow> D - dep w \<le> m \<Longrightarrow>
       \<exists>y s'' es. compute_dfdv_log m s' w (par w) = Some (y, s'', es) \<and> same_graph s s'' \<and>
         distinct es \<and> set es = below s ns par dep w"
    and v: "v \<in> set ns" and fuel: "D - dep v \<le> n"
  shows "set cs \<subseteq> set (v_out (varH s v)) \<Longrightarrow> distinct cs \<Longrightarrow> same_graph s s' \<Longrightarrow>
     \<exists>b s'' es. dfdv_out_log n s' (par v) cs a = Some (b, s'', es) \<and> same_graph s s'' \<and>
       distinct es \<and>
       set es = {e. \<exists>c\<in>set cs. kid s par v c (c_r (conH s c)) \<and>
                      (e = c \<or> e \<in> below s ns par dep (c_r (conH s c)))}"
proof (induction cs arbitrary: s' a)
  case Nil
  then show ?case by simp
next
  case (Cons c cs)
  from Cons.prems have cin: "c \<in> set (v_out (varH s v))"
    and sub: "set cs \<subseteq> set (v_out (varH s v))" and dist: "distinct cs"
    and cnot: "c \<notin> set cs" and sg: "same_graph s s'"
    by simp_all
  from sg have rd: "c_active (conH s' c) = c_active (conH s c)"
    "c_r (conH s' c) = c_r (conH s c)"
    by (simp_all add: same_graph_def)
  let ?w = "c_r (conH s c)"
  let ?S = "\<lambda>cs. {e. \<exists>c\<in>set cs. kid s par v c (c_r (conH s c)) \<and>
                      (e = c \<or> e \<in> below s ns par dep (c_r (conH s c)))}"
  show ?case
  proof (cases "Some c \<noteq> par v \<and> c_active (conH s c)")
    case False
    then have nk: "\<not> kid s par v c ?w" by (auto simp: kid_def)
    from Cons.IH [OF sub dist sg, of a] obtain b s'' es
      where r: "dfdv_out_log n s' (par v) cs a = Some (b, s'', es)" "same_graph s s''"
        "distinct es" "set es = ?S cs"
      by blast
    have "dfdv_out_log n s' (par v) (c # cs) a = dfdv_out_log n s' (par v) cs a"
      using False rd by auto
    with r(1) have res: "dfdv_out_log n s' (par v) (c # cs) a = Some (b, s'', es)" by simp
    have "?S (c # cs) = ?S cs" using nk by auto
    with r(4) have "set es = ?S (c # cs)" by simp
    with res r(2,3) show ?thesis by blast
  next
    case True
    then have k: "kid s par v c ?w" using cin by (simp add: kid_def)
    note kw = tree_kid [OF T v k]
    from tree_node(1) [OF T kw(1)] kw(3) fuel obtain m where n: "n = Suc m" and fm: "D - dep ?w \<le> m"
      by (cases n) auto
    from n have "m < n" by simp
    from IH [OF this sg kw(1) fm] kw(2) obtain y s1 es1
      where r1: "compute_dfdv_log m s' ?w (Some c) = Some (y, s1, es1)" "same_graph s s1"
        "distinct es1" "set es1 = below s ns par dep ?w"
      by auto
    let ?s2 = "set_lm s1 c y"
    have sg2: "same_graph s ?s2" using r1(2) by (rule same_graph_set_lm)
    from Cons.IH [OF sub dist sg2, of "a + c_lm (conH ?s2 c)"] obtain b s3 es2
      where r2: "dfdv_out_log n ?s2 (par v) cs (a + c_lm (conH ?s2 c)) = Some (b, s3, es2)"
        "same_graph s s3" "distinct es2" "set es2 = ?S cs"
      by blast
    have res: "dfdv_out_log n s' (par v) (c # cs) a = Some (b, s3, es1 @ c # es2)"
      using True rd n r1(1) r2(1) by (simp add: Let_def)
    have c1: "c \<notin> set es1" using not_below_self [OF T v k] r1(4) by simp
    have dj: "e \<notin> set es2" if e1: "e = c \<or> e \<in> set es1" for e
    proof
      assume "e \<in> set es2"
      with r2(4) obtain c' where c': "c' \<in> set cs" "kid s par v c' (c_r (conH s c'))"
        "e = c' \<or> e \<in> below s ns par dep (c_r (conH s c'))"
        by blast
      from c'(1) cnot have ne: "c \<noteq> c'" by auto
      from e1 r1(4) have "e = c \<or> e \<in> below s ns par dep ?w" by simp
      from below_disjoint [OF T v k c'(2) ne this] c'(3) show False by simp
    qed
    have "distinct (es1 @ c # es2)" using r1(3) r2(3) c1 dj by auto
    moreover have "set (es1 @ c # es2) = ?S (c # cs)" using r1(4) r2(4) k by auto
    ultimately show ?thesis using res r2(2) by blast
  qed
qed

lemma dfdv_in_log_tree:
  assumes T: "rooted_tree s ns rt par dep D"
    and IH: "\<And>m s' w. m < n \<Longrightarrow> same_graph s s' \<Longrightarrow> w \<in> set ns \<Longrightarrow> D - dep w \<le> m \<Longrightarrow>
       \<exists>y s'' es. compute_dfdv_log m s' w (par w) = Some (y, s'', es) \<and> same_graph s s'' \<and>
         distinct es \<and> set es = below s ns par dep w"
    and v: "v \<in> set ns" and fuel: "D - dep v \<le> n"
  shows "set cs \<subseteq> set (v_in (varH s v)) \<Longrightarrow> distinct cs \<Longrightarrow> same_graph s s' \<Longrightarrow>
     \<exists>b s'' es. dfdv_in_log n s' (par v) cs a = Some (b, s'', es) \<and> same_graph s s'' \<and>
       distinct es \<and>
       set es = {e. \<exists>c\<in>set cs. kid s par v c (c_l (conH s c)) \<and>
                      (e = c \<or> e \<in> below s ns par dep (c_l (conH s c)))}"
proof (induction cs arbitrary: s' a)
  case Nil
  then show ?case by simp
next
  case (Cons c cs)
  from Cons.prems have cin: "c \<in> set (v_in (varH s v))"
    and sub: "set cs \<subseteq> set (v_in (varH s v))" and dist: "distinct cs"
    and cnot: "c \<notin> set cs" and sg: "same_graph s s'"
    by simp_all
  from sg have rd: "c_active (conH s' c) = c_active (conH s c)"
    "c_l (conH s' c) = c_l (conH s c)"
    by (simp_all add: same_graph_def)
  let ?w = "c_l (conH s c)"
  let ?S = "\<lambda>cs. {e. \<exists>c\<in>set cs. kid s par v c (c_l (conH s c)) \<and>
                      (e = c \<or> e \<in> below s ns par dep (c_l (conH s c)))}"
  show ?case
  proof (cases "Some c \<noteq> par v \<and> c_active (conH s c)")
    case False
    then have nk: "\<not> kid s par v c ?w" by (auto simp: kid_def)
    from Cons.IH [OF sub dist sg, of a] obtain b s'' es
      where r: "dfdv_in_log n s' (par v) cs a = Some (b, s'', es)" "same_graph s s''"
        "distinct es" "set es = ?S cs"
      by blast
    have "dfdv_in_log n s' (par v) (c # cs) a = dfdv_in_log n s' (par v) cs a"
      using False rd by auto
    with r(1) have res: "dfdv_in_log n s' (par v) (c # cs) a = Some (b, s'', es)" by simp
    have "?S (c # cs) = ?S cs" using nk by auto
    with r(4) have "set es = ?S (c # cs)" by simp
    with res r(2,3) show ?thesis by blast
  next
    case True
    then have k: "kid s par v c ?w" using cin by (simp add: kid_def)
    note kw = tree_kid [OF T v k]
    from tree_node(1) [OF T kw(1)] kw(3) fuel obtain m where n: "n = Suc m" and fm: "D - dep ?w \<le> m"
      by (cases n) auto
    from n have "m < n" by simp
    from IH [OF this sg kw(1) fm] kw(2) obtain y s1 es1
      where r1: "compute_dfdv_log m s' ?w (Some c) = Some (y, s1, es1)" "same_graph s s1"
        "distinct es1" "set es1 = below s ns par dep ?w"
      by auto
    let ?s2 = "set_lm s1 c (- y)"
    have sg2: "same_graph s ?s2" using r1(2) by (rule same_graph_set_lm)
    from Cons.IH [OF sub dist sg2, of "a - c_lm (conH ?s2 c)"] obtain b s3 es2
      where r2: "dfdv_in_log n ?s2 (par v) cs (a - c_lm (conH ?s2 c)) = Some (b, s3, es2)"
        "same_graph s s3" "distinct es2" "set es2 = ?S cs"
      by blast
    have res: "dfdv_in_log n s' (par v) (c # cs) a = Some (b, s3, es1 @ c # es2)"
      using True rd n r1(1) r2(1) by (simp add: Let_def)
    have c1: "c \<notin> set es1" using not_below_self [OF T v k] r1(4) by simp
    have dj: "e \<notin> set es2" if e1: "e = c \<or> e \<in> set es1" for e
    proof
      assume "e \<in> set es2"
      with r2(4) obtain c' where c': "c' \<in> set cs" "kid s par v c' (c_l (conH s c'))"
        "e = c' \<or> e \<in> below s ns par dep (c_l (conH s c'))"
        by blast
      from c'(1) cnot have ne: "c \<noteq> c'" by auto
      from e1 r1(4) have "e = c \<or> e \<in> below s ns par dep ?w" by simp
      from below_disjoint [OF T v k c'(2) ne this] c'(3) show False by simp
    qed
    have "distinct (es1 @ c # es2)" using r1(3) r2(3) c1 dj by auto
    moreover have "set (es1 @ c # es2) = ?S (c # cs)" using r1(4) r2(4) k by auto
    ultimately show ?thesis using res r2(2) by blast
  qed
qed

lemma compute_dfdv_log_tree:
  assumes T: "rooted_tree s ns rt par dep D"
  shows "same_graph s s' \<Longrightarrow> v \<in> set ns \<Longrightarrow> D - dep v \<le> n \<Longrightarrow>
    \<exists>y s'' es. compute_dfdv_log n s' v (par v) = Some (y, s'', es) \<and> same_graph s s'' \<and>
      distinct es \<and> set es = below s ns par dep v"
proof (induction n arbitrary: s' v rule: less_induct)
  case (less n)
  note sg = less.prems(1) and v = less.prems(2) and fuel = less.prems(3)
  have IH: "\<exists>y s'' es. compute_dfdv_log m s' w (par w) = Some (y, s'', es) \<and> same_graph s s'' \<and>
         distinct es \<and> set es = below s ns par dep w"
    if "m < n" "same_graph s s'" "w \<in> set ns" "D - dep w \<le> m" for m s' w
    using less.IH [OF that] .
  from sg have vo: "v_out (varH s' v) = v_out (varH s v)" by (simp add: same_graph_def)
  let ?a0 = "2 * (v_x (varH s' v) - v_d (varH s' v))"
  from dfdv_out_log_tree [OF T IH v fuel subset_refl tree_node(2) [OF T v] sg, of ?a0]
  obtain a s1 es1
    where r1: "dfdv_out_log n s' (par v) (v_out (varH s v)) ?a0 = Some (a, s1, es1)"
      "same_graph s s1" "distinct es1"
      "set es1 = {e. \<exists>c\<in>set (v_out (varH s v)). kid s par v c (c_r (conH s c)) \<and>
                      (e = c \<or> e \<in> below s ns par dep (c_r (conH s c)))}"
    by blast
  from r1(2) have vi: "v_in (varH s1 v) = v_in (varH s v)" by (simp add: same_graph_def)
  from dfdv_in_log_tree [OF T IH v fuel subset_refl tree_node(3) [OF T v] r1(2), of a]
  obtain b s2 es2
    where r2: "dfdv_in_log n s1 (par v) (v_in (varH s v)) a = Some (b, s2, es2)"
      "same_graph s s2" "distinct es2"
      "set es2 = {e. \<exists>c\<in>set (v_in (varH s v)). kid s par v c (c_l (conH s c)) \<and>
                      (e = c \<or> e \<in> below s ns par dep (c_l (conH s c)))}"
    by blast
  have res: "compute_dfdv_log n s' v (par v) = Some (b, s2, es1 @ es2)"
    using r1(1) r2(1) by (simp add: vo vi)
  have dj: "e \<notin> set es2" if "e \<in> set es1" for e
  proof
    assume "e \<in> set es2"
    with r2(4) obtain c2 where c2: "c2 \<in> set (v_in (varH s v))"
      "kid s par v c2 (c_l (conH s c2))"
      "e = c2 \<or> e \<in> below s ns par dep (c_l (conH s c2))"
      by blast
    from that r1(4) obtain c1 where c1: "c1 \<in> set (v_out (varH s v))"
      "kid s par v c1 (c_r (conH s c1))"
      "e = c1 \<or> e \<in> below s ns par dep (c_r (conH s c1))"
      by blast
    have ne: "c1 \<noteq> c2"
    proof
      assume eq: "c1 = c2"
      from tree_out_left [OF T v c1(1)] eq have "c_l (conH s c2) = v" by simp
      with tree_kid(3) [OF T v c2(2)] show False by simp
    qed
    from below_disjoint [OF T v c1(2) c2(2) ne c1(3)] c2(3) show False by simp
  qed
  have "distinct (es1 @ es2)" using r1(3) r2(3) dj by auto
  moreover have "set (es1 @ es2) = below s ns par dep v"
  proof (intro set_eqI iffI)
    fix e
    assume "e \<in> set (es1 @ es2)"
    with r1(4) r2(4) have "\<exists>c w. kid s par v c w \<and> (e = c \<or> e \<in> below s ns par dep w)"
      by auto
    then show "e \<in> below s ns par dep v"
      unfolding below_unfold [OF T v] by simp
  next
    fix e
    assume "e \<in> below s ns par dep v"
    then obtain c w where k: "kid s par v c w" and e: "e = c \<or> e \<in> below s ns par dep w"
      unfolding below_unfold [OF T v] by blast
    from kid_sides(3) [OF k] show "e \<in> set (es1 @ es2)"
    proof
      assume "c \<in> set (v_out (varH s v)) \<and> w = c_r (conH s c)"
      with k e r1(4) show ?thesis by auto
    next
      assume "c \<in> set (v_in (varH s v)) \<and> w = c_l (conH s c)"
      with k e r2(4) show ?thesis by auto
    qed
  qed
  ultimately show ?case using res r2(2) by blast
qed

lemma tree4_run:
  "map_option (\<lambda>(y, s, es). (y, es)) (compute_dfdv_log 2 tree4 0 None) = Some (0, [2, 1, 0])"
  by (simp add: tree4_def set_lm_def numeral_2_eq_2)

lemma tree4_shallow: "compute_dfdv 1 tree4 0 None = None"
  by (simp add: tree4_def set_lm_def)

text \<open>
  Claim C7. When the active constraints reached from \<open>rt\<close> form a tree whose nodes are at
  distance at most \<open>D\<close> from \<open>rt\<close>, \<open>compute_dfdv\<close> called on \<open>rt\<close> with no last constraint returns,
  never nesting more than \<open>D\<close> recursive calls (any allowance \<open>n \<ge> D\<close> is enough), and \<open>D\<close> is
  at most the diameter of the tree. The constraints whose multiplier it assigns are, each
  exactly once, the active constraints in the lists of the nodes: the edges of the tree.
\<close>

theorem compute_dfdv_tree:
  assumes "rooted_tree s ns rt par dep D" and "D \<le> n"
  shows "\<exists>y s' es. compute_dfdv n s rt None = Some (y, s') \<and>
           compute_dfdv_log n s rt None = Some (y, s', es) \<and> distinct es \<and>
           set es = {c. c_active (conH s c) \<and>
                        (\<exists>v\<in>set ns. c \<in> set (v_out (varH s v)) \<union> set (v_in (varH s v)))}"
proof -
  note T = assms(1)
  from tree_root(3) [OF T] assms(2) have fuel: "D - dep rt \<le> n" by simp
  from compute_dfdv_log_tree [OF T same_graph_refl tree_root(1) [OF T] fuel]
  obtain y s' es where r: "compute_dfdv_log n s rt (par rt) = Some (y, s', es)"
    "distinct es" "set es = below s ns par dep rt"
    by blast
  from r(1) tree_root(2) [OF T] have l: "compute_dfdv_log n s rt None = Some (y, s', es)" by simp
  have "compute_dfdv n s rt None = drop_log (compute_dfdv_log n s rt None)"
    by (rule compute_dfdv_log_drop(1) [symmetric])
  with l have "compute_dfdv n s rt None = Some (y, s')" by (simp add: drop_log_def)
  with l r(2) r(3) below_root [OF T] show ?thesis by blast
qed

theorem compute_dfdv_tree_witness:
  "rooted_tree tree4 [0, 1, 2, 3] 0 par4 dep4 2 \<and>
   (\<exists>y s' es. compute_dfdv 2 tree4 0 None = Some (y, s') \<and>
      compute_dfdv_log 2 tree4 0 None = Some (y, s', es) \<and> distinct es \<and>
      set es = {c. c_active (conH tree4 c) \<and>
                   (\<exists>v\<in>set [0, 1, 2, 3]. c \<in> set (v_out (varH tree4 v)) \<union> set (v_in (varH tree4 v)))}) \<and>
   map_option (\<lambda>(y, s, es). (y, es)) (compute_dfdv_log 2 tree4 0 None) = Some (0, [2, 1, 0]) \<and>
   compute_dfdv 1 tree4 0 None = None"
  using compute_dfdv_tree [OF tree4_rooted order_refl] tree4_rooted tree4_run tree4_shallow
  by blast

section \<open>Properties of the construction\<close>

lemma init_blocks_loop_solver:
  "conH (init_blocks_loop s vs) = conH s \<and> fpa_vs (init_blocks_loop s vs) = fpa_vs s \<and>
   fpa_cs (init_blocks_loop s vs) = fpa_cs s \<and>
   fpa_inactive (init_blocks_loop s vs) = fpa_inactive s"
  by (induction vs arbitrary: s) (simp_all add: Block_ctor_def Let_def)

lemma init_blocks_loop_next: "next_blk (init_blocks_loop s vs) = next_blk s + length vs"
  by (induction vs arbitrary: s) (simp_all add: Block_ctor_def Let_def)

lemma init_blocks_loop_blocks:
  "fpa_blocks (init_blocks_loop s vs) = fpa_blocks s @ [next_blk s ..< next_blk s + length vs]"
  by (induction vs arbitrary: s) (simp_all add: Block_ctor_def Let_def upt_rec)

lemma init_blocks_loop_positions:
  "v_d (varH (init_blocks_loop s vs) v) = v_d (varH s v) \<and>
   v_x (varH (init_blocks_loop s vs) v) = v_x (varH s v) \<and>
   v_out (varH (init_blocks_loop s vs) v) = v_out (varH s v) \<and>
   v_in (varH (init_blocks_loop s vs) v) = v_in (varH s v)"
  by (induction vs arbitrary: s) (simp_all add: Block_ctor_def Let_def)

lemma init_blocks_loop_others: "v \<notin> set vs \<Longrightarrow> varH (init_blocks_loop s vs) v = varH s v"
  by (induction vs arbitrary: s) (simp_all add: Block_ctor_def Let_def)

lemma init_blocks_loop_offset: "v \<in> set vs \<Longrightarrow> v_b (varH (init_blocks_loop s vs) v) = 0"
proof (induction vs arbitrary: s)
  case Nil
  then show ?case by simp
next
  case (Cons a vs)
  show ?case
  proof (cases "v \<in> set vs")
    case True
    then show ?thesis using Cons.IH by (simp add: Block_ctor_def Let_def)
  next
    case False
    with Cons.prems have "v = a" by simp
    with False show ?thesis
      by (simp add: Block_ctor_def Let_def init_blocks_loop_others)
  qed
qed

lemma init_blocks_loop_old: "b < next_blk s \<Longrightarrow> blkH (init_blocks_loop s vs) b = blkH s b"
  by (induction vs arbitrary: s) (simp_all add: Block_ctor_def Let_def)

lemma init_blocks_loop_new:
  "i < length vs \<Longrightarrow>
   blkH (init_blocks_loop s vs) (next_blk s + i) =
     \<lparr>b_V = [vs ! i], b_C = [], b_X = v_d (varH s (vs ! i)), b_XI = v_x (varH s (vs ! i))\<rparr>"
proof (induction vs arbitrary: s i)
  case Nil
  then show ?case by simp
next
  case (Cons a vs)
  let ?s1 = "(snd (Block_ctor s a))\<lparr>fpa_blocks := fpa_blocks (snd (Block_ctor s a)) @ [fst (Block_ctor s a)]\<rparr>"
  have step: "init_blocks_loop s (a # vs) = init_blocks_loop ?s1 vs"
    by (simp add: split_beta)
  have s1: "next_blk ?s1 = Suc (next_blk s)" "v_d (varH ?s1 v) = v_d (varH s v)"
    "v_x (varH ?s1 v) = v_x (varH s v)" for v
    by (simp_all add: Block_ctor_def Let_def)
  show ?case
  proof (cases i)
    case 0
    have "next_blk s < next_blk ?s1" by (simp add: s1)
    from init_blocks_loop_old [OF this, of vs] 0 show ?thesis
      unfolding step by (simp add: Block_ctor_def Let_def)
  next
    case (Suc j)
    with Cons.prems have "j < length vs" by simp
    from Cons.IH [OF this, of ?s1] Suc show ?thesis
      unfolding step by (simp add: Block_ctor_def Let_def)
  qed
qed

lemma init_blocks_loop_owner:
  "distinct vs \<Longrightarrow> i < length vs \<Longrightarrow>
   v_block (varH (init_blocks_loop s vs) (vs ! i)) = next_blk s + i"
proof (induction vs arbitrary: s i)
  case Nil
  then show ?case by simp
next
  case (Cons a vs)
  show ?case
  proof (cases i)
    case 0
    with Cons.prems show ?thesis
      by (simp add: Block_ctor_def Let_def init_blocks_loop_others)
  next
    case (Suc j)
    with Cons.prems have "j < length vs" "distinct vs" by simp_all
    from Cons.IH [OF this(2) this(1)] Suc show ?thesis
      by (simp add: Block_ctor_def Let_def)
  qed
qed

text \<open>
  Claim C8. Started with no block, \<open>init_blocks\<close> creates one block per entry of \<^verbatim>\<open>vs\<close>, all at
  different addresses; the block made for a variable has that variable as its only member,
  the member's offset is 0, the block's reference \<^verbatim>\<open>XI\<close> is the member's current position (and
  its target \<^verbatim>\<open>X\<close> the member's desired position). When no variable occurs twice in \<^verbatim>\<open>vs\<close>,
  each variable points back to its block.
\<close>

theorem init_blocks_singletons:
  assumes "fpa_blocks s = []"
  shows "length (fpa_blocks (init_blocks s)) = length (fpa_vs s) \<and>
         distinct (fpa_blocks (init_blocks s)) \<and>
         (\<forall>i<length (fpa_vs s).
            b_V (blkH (init_blocks s) (fpa_blocks (init_blocks s) ! i)) = [fpa_vs s ! i] \<and>
            v_b (varH (init_blocks s) (fpa_vs s ! i)) = 0 \<and>
            b_XI (blkH (init_blocks s) (fpa_blocks (init_blocks s) ! i))
              = v_x (varH (init_blocks s) (fpa_vs s ! i)) \<and>
            b_X (blkH (init_blocks s) (fpa_blocks (init_blocks s) ! i))
              = v_d (varH (init_blocks s) (fpa_vs s ! i))) \<and>
         (distinct (fpa_vs s) \<longrightarrow>
            (\<forall>i<length (fpa_vs s).
               v_block (varH (init_blocks s) (fpa_vs s ! i)) = fpa_blocks (init_blocks s) ! i))"
proof -
  let ?s' = "init_blocks s"
  have blocks: "fpa_blocks ?s' = [next_blk s ..< next_blk s + length (fpa_vs s)]"
    using assms by (simp add: init_blocks_def init_blocks_loop_blocks)
  have nth: "fpa_blocks ?s' ! i = next_blk s + i" if "i < length (fpa_vs s)" for i
    using that by (simp add: blocks)
  have one: "b_V (blkH ?s' (fpa_blocks ?s' ! i)) = [fpa_vs s ! i] \<and>
            v_b (varH ?s' (fpa_vs s ! i)) = 0 \<and>
            b_XI (blkH ?s' (fpa_blocks ?s' ! i)) = v_x (varH ?s' (fpa_vs s ! i)) \<and>
            b_X (blkH ?s' (fpa_blocks ?s' ! i)) = v_d (varH ?s' (fpa_vs s ! i))"
    if "i < length (fpa_vs s)" for i
    using that nth [OF that] init_blocks_loop_new [OF that, of s]
      init_blocks_loop_offset [of "fpa_vs s ! i" "fpa_vs s" s]
      init_blocks_loop_positions [of s "fpa_vs s" "fpa_vs s ! i"]
    by (simp add: init_blocks_def)
  have owner: "v_block (varH ?s' (fpa_vs s ! i)) = fpa_blocks ?s' ! i"
    if "distinct (fpa_vs s)" "i < length (fpa_vs s)" for i
    using nth [OF that(2)] init_blocks_loop_owner [OF that, of s]
    by (simp add: init_blocks_def)
  have "length (fpa_blocks ?s') = length (fpa_vs s)" "distinct (fpa_blocks ?s')"
    by (simp_all add: blocks)
  with one owner show ?thesis by blast
qed

theorem init_blocks_singletons_witness:
  "fpa_blocks built3 = [] \<and> distinct (fpa_vs built3) \<and>
   length (fpa_blocks (init_blocks built3)) = 3 \<and>
   b_V (blkH (init_blocks built3) (fpa_blocks (init_blocks built3) ! 1)) = [1] \<and>
   v_b (varH (init_blocks built3) 1) = 0 \<and>
   b_XI (blkH (init_blocks built3) (fpa_blocks (init_blocks built3) ! 1)) = 3 \<and>
   v_x (varH (init_blocks built3) 1) = 3 \<and>
   v_block (varH (init_blocks built3) 1) = fpa_blocks (init_blocks built3) ! 1"
proof -
  have h: "fpa_blocks built3 = []"
    by (simp add: built3_def FeasibleProjectionAlgorithm_def)
  have vs: "fpa_vs built3 = [0, 1, 2]"
    by (simp add: built3_def FeasibleProjectionAlgorithm_def)
  have d: "distinct (fpa_vs built3)" and i: "1 < length (fpa_vs built3)"
    by (simp_all add: vs)
  note t = init_blocks_singletons [OF h]
  from t have "length (fpa_blocks (init_blocks built3)) = 3"
    by (simp add: vs)
  moreover from t i have
    "b_V (blkH (init_blocks built3) (fpa_blocks (init_blocks built3) ! 1)) = [fpa_vs built3 ! 1] \<and>
     v_b (varH (init_blocks built3) (fpa_vs built3 ! 1)) = 0 \<and>
     b_XI (blkH (init_blocks built3) (fpa_blocks (init_blocks built3) ! 1))
       = v_x (varH (init_blocks built3) (fpa_vs built3 ! 1))"
    by blast
  moreover from t d i have
    "v_block (varH (init_blocks built3) (fpa_vs built3 ! 1)) = fpa_blocks (init_blocks built3) ! 1"
    by blast
  moreover have "v_x (varH (init_blocks built3) 1) = 3"
    by (simp add: chain3_built chain3_def)
  ultimately show ?thesis using h d by (simp add: vs)
qed

section \<open>Properties of the safe step\<close>

lemma MaxSafeAlpha_alpha_unfold:
  "MaxSafeAlpha_alpha s c =
     (if full_step_ok s c then Fin 1 else ddiv (alpha_num s c) (alpha_den s c))"
  by (simp add: MaxSafeAlpha_alpha_def full_step_ok_def alpha_num_def alpha_den_def Let_def)

lemma num_above_den: "\<not> full_step_ok s c \<Longrightarrow> alpha_den s c < alpha_num s c"
  by (simp add: full_step_ok_def alpha_num_def alpha_den_def)











text \<open>
  When the constraint holds at the start of the step and the divisor is zero, it holds at the
  full step too, and the first branch gives 1.
\<close>

lemma zero_denominator_feasible:
  assumes "alpha_den s c = 0" and "alpha_num s c \<le> 0"
  shows "full_step_ok s c" and "MaxSafeAlpha_alpha s c = Fin 1"
proof -
  show "full_step_ok s c"
    using num_above_den [of s c] assms by auto
  then show "MaxSafeAlpha_alpha s c = Fin 1"
    by (simp add: MaxSafeAlpha_alpha_unfold)
qed




lemma tie4_alpha:
  "MaxSafeAlpha_alpha tie4 0 = Fin (1 / 3)"
  "MaxSafeAlpha_alpha tie4 1 = Fin (1 / 3)"
  "MaxSafeAlpha_alpha tie4 (Suc 0) = Fin (1 / 3)"
  by (simp_all add: tie4_def MaxSafeAlpha_alpha_def ddiv_def)



section \<open>Properties of the solve\<close>

lemma make_optimal_loop_count:
  "length (fpa_inactive (make_optimal_loop s (safe_step s))) + make_optimal_iterations s (safe_step s)
     \<le> length (fpa_inactive s)"
proof (induction "length (fpa_inactive s)" arbitrary: s rule: less_induct)
  case less
  show ?case
  proof (cases "dless (snd (safe_step s)) (Fin 1)")
    case True
    let ?s2 = "make_optimal_body s (safe_step s)"
    have lt: "length (fpa_inactive ?s2) < length (fpa_inactive s)"
      using True by (rule make_optimal_body_shrinks)
    have "make_optimal_loop s (safe_step s) = make_optimal_loop ?s2 (safe_step ?s2)"
      using True by (subst make_optimal_loop.simps) (simp add: Let_def)
    moreover have "make_optimal_iterations s (safe_step s)
        = Suc (make_optimal_iterations ?s2 (safe_step ?s2))"
      using True by (subst make_optimal_iterations.simps) (simp add: Let_def)
    ultimately show ?thesis
      using less [OF lt] lt by simp
  next
    case False
    then have "make_optimal_loop s (safe_step s) = s"
      by (subst make_optimal_loop.simps) simp
    moreover have "make_optimal_iterations s (safe_step s) = 0"
      using False by (subst make_optimal_iterations.simps) simp
    ultimately show ?thesis by simp
  qed
qed

text \<open>
  Claim C6. Whenever the loop of \<open>make_optimal\<close> is entered (the minimum step fraction is
  below 1), the selected constraint is a member of the inactive set and the body erases it,
  so the inactive set is strictly shorter afterwards. The loop ends (\<open>make_optimal_loop\<close> is a
  total function), and the number of times its body runs, together with what is left of the
  inactive set, is at most the size of the inactive set at the start, which is at most the
  number of constraints the solver was constructed with.
\<close>

theorem activation_loop_terminates:
  "(dless (snd (safe_step s)) (Fin 1) \<longrightarrow>
      (\<exists>k\<in>set (fpa_inactive s). fst (safe_step s) = Some k \<and>
         fpa_inactive (make_optimal_body s (safe_step s)) = removeAll k (fpa_inactive s) \<and>
         length (fpa_inactive (make_optimal_body s (safe_step s))) < length (fpa_inactive s))) \<and>
   length (fpa_inactive (make_optimal_loop s (safe_step s))) + make_optimal_iterations s (safe_step s)
     \<le> length (fpa_inactive s) \<and>
   make_optimal_iterations s (safe_step s) \<le> length (fpa_inactive s) \<and>
   make_optimal_iterations (init_blocks (FeasibleProjectionAlgorithm s0 vs cs))
       (safe_step (init_blocks (FeasibleProjectionAlgorithm s0 vs cs))) \<le> length cs"
proof (intro conjI impI)
  assume lt: "dless (snd (safe_step s)) (Fin 1)"
  from safe_step_below_1 [OF lt] obtain k
    where k: "k \<in> set (fpa_inactive s)" "fst (safe_step s) = Some k" by auto
  then have "fpa_inactive (make_optimal_body s (safe_step s)) = removeAll k (fpa_inactive s)"
    by (simp add: make_optimal_body_def make_active_def erase_def)
  with k make_optimal_body_shrinks [OF lt]
  show "\<exists>k\<in>set (fpa_inactive s). fst (safe_step s) = Some k \<and>
         fpa_inactive (make_optimal_body s (safe_step s)) = removeAll k (fpa_inactive s) \<and>
         length (fpa_inactive (make_optimal_body s (safe_step s))) < length (fpa_inactive s)"
    by blast
next
  show "length (fpa_inactive (make_optimal_loop s (safe_step s)))
      + make_optimal_iterations s (safe_step s) \<le> length (fpa_inactive s)"
    by (rule make_optimal_loop_count)
next
  show "make_optimal_iterations s (safe_step s) \<le> length (fpa_inactive s)"
    using make_optimal_loop_count [of s] by simp
next
  let ?s = "init_blocks (FeasibleProjectionAlgorithm s0 vs cs)"
  have "fpa_inactive ?s = sort (remdups cs)"
    by (simp add: init_blocks_def init_blocks_loop_solver FeasibleProjectionAlgorithm_def)
  then have "length (fpa_inactive ?s) \<le> length cs"
    by (simp add: length_remdups_leq)
  with make_optimal_loop_count [of ?s]
  show "make_optimal_iterations ?s (safe_step ?s) \<le> length cs" by simp
qed

lemma tie4_safe_step: "safe_step tie4 = (Some 0, Fin (1 / 3))"
proof -
  have "fpa_inactive tie4 = [0, 1]" by (simp add: tie4_def)
  moreover have "1 / 3 < DBL_MAX" using DBL_MAX_ge_1 by simp
  ultimately show ?thesis
    by (simp add: safe_step_def MaxSafeAlpha_call_def MaxSafeAlpha_ctor_def tie4_alpha)
qed

theorem activation_loop_terminates_witness:
  "dless (snd (safe_step tie4)) (Fin 1) \<and>
   fst (safe_step tie4) = Some 0 \<and>
   fpa_inactive (make_optimal_body tie4 (safe_step tie4)) = [1] \<and>
   length (fpa_inactive (make_optimal_body tie4 (safe_step tie4))) < length (fpa_inactive tie4) \<and>
   make_optimal_iterations tie4 (safe_step tie4) \<le> 2"
proof -
  have inact: "fpa_inactive tie4 = [0, 1]" by (simp add: tie4_def)
  have lt: "dless (snd (safe_step tie4)) (Fin 1)" by (simp add: tie4_safe_step)
  note t = activation_loop_terminates [of tie4]
  from t lt obtain k where "fst (safe_step tie4) = Some k"
    "fpa_inactive (make_optimal_body tie4 (safe_step tie4)) = removeAll k (fpa_inactive tie4)"
    "length (fpa_inactive (make_optimal_body tie4 (safe_step tie4))) < length (fpa_inactive tie4)"
    by blast
  moreover from t have "make_optimal_iterations tie4 (safe_step tie4) \<le> length (fpa_inactive tie4)"
    by blast
  ultimately show ?thesis using lt by (simp add: tie4_safe_step inact)
qed

text \<open>
  Claim C9. \<^verbatim>\<open>make_active\<close>, \<^verbatim>\<open>make_inactive\<close> and \<^verbatim>\<open>split_blocks\<close> have empty bodies: each returns
  the whole solver state (variables, constraints, blocks, the inactive set) as it received it.
\<close>

theorem stubs_leave_state:
  "make_active s c alpha = s \<and> make_inactive s c = s \<and> split_blocks s = s"
  by (simp add: make_active_def make_inactive_def split_blocks_def)





end
